theory Spec2Isabelle
  imports Main
begin

section \<open>The lexer and parser of lexer.cpp\<close>

subsection \<open>Characters and the C library\<close>

text \<open>
  \<open>getchar\<close> returns an \<open>int\<close>: a byte as a value from 0 to 255, or \<open>EOF\<close>. The
  lexer keeps such values in \<open>LastChar\<close> and returns them as tokens, so characters and
  tokens are integers here. The classification functions are those of the C library in
  the "C" locale (the program never changes the locale).
\<close>

text \<open>\<open>EOF\<close> is -1, as in the usual C libraries.\<close>

definition EOF :: int where
  "EOF = -1"

definition isspace :: "int \<Rightarrow> bool" where
  "isspace c \<longleftrightarrow> c = 32 \<or> (9 \<le> c \<and> c \<le> 13)"

definition isalpha :: "int \<Rightarrow> bool" where
  "isalpha c \<longleftrightarrow> (65 \<le> c \<and> c \<le> 90) \<or> (97 \<le> c \<and> c \<le> 122)"

definition isdigit :: "int \<Rightarrow> bool" where
  "isdigit c \<longleftrightarrow> 48 \<le> c \<and> c \<le> 57"

definition isalnum :: "int \<Rightarrow> bool" where
  "isalnum c \<longleftrightarrow> isalpha c \<or> isdigit c"

definition isascii :: "int \<Rightarrow> bool" where
  "isascii c \<longleftrightarrow> 0 \<le> c \<and> c \<le> 127"

text \<open>The enum \<open>Token\<close>: the lexer returns one of these, or the character itself.\<close>

definition tok_eof :: int where
  "tok_eof = -1"

definition tok_def :: int where
  "tok_def = -2"

definition tok_extern :: int where
  "tok_extern = -3"

definition tok_identifier :: int where
  "tok_identifier = -4"

definition tok_number :: int where
  "tok_number = -5"

subsection \<open>The abstract syntax tree\<close>

text \<open>
  The type \<open>'v\<close> stands for \<open>double\<close>: the only operation the program applies to a
  \<open>double\<close> is to store the result of \<open>strtod\<close>, which is a parameter of the model.
\<close>

datatype 'v ExprAST =
    NumberExprAST 'v
  | VariableExprAST string
  | BinaryExprAST char "'v ExprAST" "'v ExprAST"
  | CallExprAST string "'v ExprAST list"

datatype PrototypeAST = PrototypeAST (getName: string) (getArgs: "string list")

datatype 'v FunctionAST = FunctionAST (getProto: PrototypeAST) (getBody: "'v ExprAST")

subsection \<open>The global state\<close>

text \<open>
  The static variables of the program, the unread part of standard input and what has
  been written to standard error.
\<close>

record 'v globals =
  stdin :: string
  stderr :: "string list"
  LastChar :: int
  IdentifierStr :: string
  NumVal :: 'v
  CurTok :: int
  BinopPrecedence :: "char \<rightharpoonup> int"

definition getchar :: "'v globals \<Rightarrow> int \<times> 'v globals" where
  "getchar g =
     (case stdin g of
        [] \<Rightarrow> (EOF, g)
      | c # cs \<Rightarrow> (of_char c, g\<lparr>stdin := cs\<rparr>))"

text \<open>The statement \<open>LastChar = getchar()\<close>.\<close>

definition next_LastChar :: "'v globals \<Rightarrow> 'v globals" where
  "next_LastChar g = (case getchar g of (c, g') \<Rightarrow> g'\<lparr>LastChar := c\<rparr>)"

text \<open>The number of characters not yet consumed, \<open>LastChar\<close> included.\<close>

definition pending :: "'v globals \<Rightarrow> nat" where
  "pending g = length (stdin g) + (if LastChar g = EOF then 0 else 1)"

subsection \<open>gettok\<close>

text \<open>\<open>while (isspace(LastChar)) LastChar = getchar();\<close>\<close>

function gettok_space :: "'v globals \<Rightarrow> 'v globals" where
  "gettok_space g = (if isspace (LastChar g) then gettok_space (next_LastChar g) else g)"
  by pat_completeness auto

lemma gettok_space_terminates: "All gettok_space_dom"
  by (rule "gettok_space.termination" [of "measure pending"])
     (auto simp: pending_def next_LastChar_def getchar_def isspace_def EOF_def
           split: list.splits)

termination gettok_space
  by (rule gettok_space_terminates)

text \<open>\<open>while (isalnum((LastChar = getchar()))) IdentifierStr += LastChar;\<close>\<close>

function gettok_ident :: "'v globals \<Rightarrow> 'v globals" where
  "gettok_ident g =
     (let g1 = next_LastChar g in
      if isalnum (LastChar g1)
      then gettok_ident (g1\<lparr>IdentifierStr := IdentifierStr g1 @ [char_of (LastChar g1)]\<rparr>)
      else g1)"
  by pat_completeness auto

lemma gettok_ident_terminates: "All gettok_ident_dom"
  by (rule "gettok_ident.termination" [of "measure (\<lambda>g. length (stdin g))"])
     (auto simp: next_LastChar_def getchar_def isalnum_def isalpha_def isdigit_def EOF_def
           split: list.splits)

termination gettok_ident
  by (rule gettok_ident_terminates)

text \<open>
  \<open>do { NumStr += LastChar; LastChar = getchar(); }
   while (isdigit(LastChar) || LastChar == '.');\<close>
\<close>

function gettok_number :: "string \<Rightarrow> 'v globals \<Rightarrow> string \<times> 'v globals" where
  "gettok_number NumStr g =
     (let NumStr1 = NumStr @ [char_of (LastChar g)];
          g1 = next_LastChar g in
      if isdigit (LastChar g1) \<or> LastChar g1 = 46
      then gettok_number NumStr1 g1
      else (NumStr1, g1))"
  by pat_completeness auto

lemma gettok_number_terminates: "All gettok_number_dom"
  by (rule "gettok_number.termination" [of "measure (\<lambda>(s, g). length (stdin g))"])
     (auto simp: next_LastChar_def getchar_def isdigit_def EOF_def split: list.splits)

termination gettok_number
  by (rule gettok_number_terminates)

text \<open>
  \<open>do { LastChar = getchar(); }
   while (LastChar != EOF && LastChar != '\n' && LastChar != '\r');\<close>
\<close>

function gettok_comment :: "'v globals \<Rightarrow> 'v globals" where
  "gettok_comment g =
     (let g1 = next_LastChar g in
      if LastChar g1 \<noteq> EOF \<and> LastChar g1 \<noteq> 10 \<and> LastChar g1 \<noteq> 13
      then gettok_comment g1
      else g1)"
  by pat_completeness auto

lemma gettok_comment_terminates: "All gettok_comment_dom"
  by (rule "gettok_comment.termination" [of "measure (\<lambda>g. length (stdin g))"])
     (auto simp: next_LastChar_def getchar_def EOF_def split: list.splits)

termination gettok_comment
  by (rule gettok_comment_terminates)

declare gettok_space.simps [simp del] gettok_ident.simps [simp del]
  gettok_number.simps [simp del] gettok_comment.simps [simp del]

lemma stdin_next_LastChar: "length (stdin (next_LastChar g)) \<le> length (stdin g)"
  by (simp add: next_LastChar_def getchar_def split: list.splits)

lemma stdin_next_LastChar_less:
  "LastChar (next_LastChar g) \<noteq> EOF \<Longrightarrow> length (stdin (next_LastChar g)) < length (stdin g)"
  by (simp add: next_LastChar_def getchar_def split: list.splits)

lemma stdin_gettok_space: "length (stdin (gettok_space g)) \<le> length (stdin g)"
proof (induction g rule: gettok_space.induct)
  case (1 g)
  show ?case
  proof (cases "isspace (LastChar g)")
    case True
    with 1 have "length (stdin (gettok_space (next_LastChar g))) \<le> length (stdin (next_LastChar g))"
      by simp
    with True stdin_next_LastChar [of g] show ?thesis
      by (simp add: gettok_space.simps [of g])
  next
    case False
    then show ?thesis by (simp add: gettok_space.simps [of g])
  qed
qed

lemma stdin_gettok_comment:
  "LastChar (gettok_comment g) \<noteq> EOF \<Longrightarrow> length (stdin (gettok_comment g)) < length (stdin g)"
proof (induction g rule: gettok_comment.induct)
  case (1 g)
  let ?g1 = "next_LastChar g"
  show ?case
  proof (cases "LastChar ?g1 \<noteq> EOF \<and> LastChar ?g1 \<noteq> 10 \<and> LastChar ?g1 \<noteq> 13")
    case True
    then have eq: "gettok_comment g = gettok_comment ?g1"
      by (simp add: gettok_comment.simps [of g] Let_def)
    with 1 True have "length (stdin (gettok_comment ?g1)) < length (stdin ?g1)"
      by simp
    with eq stdin_next_LastChar [of g] show ?thesis by simp
  next
    case False
    then have eq: "gettok_comment g = ?g1"
      by (auto simp add: gettok_comment.simps [of g] Let_def)
    with 1 stdin_next_LastChar_less [of g] show ?thesis by simp
  qed
qed

text \<open>
  \<open>gettok\<close>. The library function \<open>strtod\<close> is a parameter. After a comment that ends
  before the end of the input the function calls itself; a comment that runs to the end of
  the input falls through to the test for \<open>EOF\<close>. The characters in the tests are the
  decimal point (46), \<open>#\<close> (35), the line feed (10) and the carriage return (13).
\<close>

function gettok :: "(string \<Rightarrow> 'v) \<Rightarrow> 'v globals \<Rightarrow> int \<times> 'v globals" where
  "gettok strtod g0 =
     (let g = gettok_space g0 in
      if isalpha (LastChar g) then
        (let g1 = gettok_ident (g\<lparr>IdentifierStr := [char_of (LastChar g)]\<rparr>) in
         if IdentifierStr g1 = ''def'' then (tok_def, g1)
         else if IdentifierStr g1 = ''extern'' then (tok_extern, g1)
         else (tok_identifier, g1))
      else if isdigit (LastChar g) \<or> LastChar g = 46 then
        (case gettok_number [] g of
           (NumStr, g1) \<Rightarrow> (tok_number, g1\<lparr>NumVal := strtod NumStr\<rparr>))
      else
        (let g1 = (if LastChar g = 35 then gettok_comment g else g) in
         if LastChar g = 35 \<and> LastChar g1 \<noteq> EOF then gettok strtod g1
         else if LastChar g1 = EOF then (tok_eof, g1)
         else (LastChar g1, next_LastChar g1)))"
  by pat_completeness auto

lemma gettok_terminates: "All gettok_dom"
proof (rule "gettok.termination" [of "measure (\<lambda>(strtod, g). length (stdin g))"])
  show "wf (measure (\<lambda>(strtod, g). length (stdin g)))"
    by simp
next
  fix strtod :: "string \<Rightarrow> 'v" and g0 g g1 :: "'v globals"
  assume g: "g = gettok_space g0"
    and g1: "g1 = (if LastChar g = 35 then gettok_comment g else g)"
    and rec: "LastChar g = 35 \<and> LastChar g1 \<noteq> EOF"
  from g1 rec have "length (stdin g1) < length (stdin g)"
    using stdin_gettok_comment [of g] by simp
  with g stdin_gettok_space [of g0]
  show "((strtod, g1), (strtod, g0)) \<in> measure (\<lambda>(strtod, g). length (stdin g))"
    by simp
qed

termination gettok
  by (rule gettok_terminates)

declare gettok.simps [simp del]

text \<open>The token buffer: \<open>return CurTok = gettok();\<close>\<close>

definition getNextToken :: "(string \<Rightarrow> 'v) \<Rightarrow> 'v globals \<Rightarrow> int \<times> 'v globals" where
  "getNextToken strtod g = (case gettok strtod g of (t, g') \<Rightarrow> (t, g'\<lparr>CurTok := t\<rparr>))"

subsection \<open>What a call of the lexer consumes\<close>

lemma isalnum_not_EOF: "isalnum c \<Longrightarrow> c \<noteq> EOF"
  by (auto simp: isalnum_def isalpha_def isdigit_def EOF_def)

lemma isspace_not_EOF: "isspace c \<Longrightarrow> c \<noteq> EOF"
  by (auto simp: isspace_def EOF_def)

lemma isalpha_not_EOF: "isalpha c \<Longrightarrow> c \<noteq> EOF"
  by (auto simp: isalpha_def EOF_def)

lemma isdigit_not_EOF: "isdigit c \<Longrightarrow> c \<noteq> EOF"
  by (auto simp: isdigit_def EOF_def)

lemma pending_updates [simp]:
  "pending (g\<lparr>IdentifierStr := s\<rparr>) = pending g"
  "pending (g\<lparr>NumVal := v\<rparr>) = pending g"
  "pending (g\<lparr>CurTok := t\<rparr>) = pending g"
  "pending (g\<lparr>BinopPrecedence := m\<rparr>) = pending g"
  "pending (g\<lparr>stderr := e\<rparr>) = pending g"
  by (simp_all add: pending_def)

lemma pending_next_LastChar: "pending (next_LastChar g) \<le> pending g"
  by (simp add: pending_def next_LastChar_def getchar_def EOF_def split: list.splits)

lemma pending_next_LastChar_less:
  "LastChar g \<noteq> EOF \<Longrightarrow> pending (next_LastChar g) < pending g"
  by (simp add: pending_def next_LastChar_def getchar_def EOF_def split: list.splits)

lemma pending_gettok_space: "pending (gettok_space g) \<le> pending g"
proof (induction g rule: gettok_space.induct)
  case (1 g)
  show ?case
  proof (cases "isspace (LastChar g)")
    case True
    with 1 have "pending (gettok_space (next_LastChar g)) \<le> pending (next_LastChar g)"
      by simp
    with True pending_next_LastChar [of g] show ?thesis
      by (simp add: gettok_space.simps [of g])
  next
    case False
    then show ?thesis by (simp add: gettok_space.simps [of g])
  qed
qed

lemma pending_gettok_ident:
  "LastChar g \<noteq> EOF \<Longrightarrow> pending (gettok_ident g) < pending g"
proof (induction g rule: gettok_ident.induct)
  case (1 g)
  let ?g1 = "next_LastChar g"
  let ?g2 = "?g1\<lparr>IdentifierStr := IdentifierStr ?g1 @ [char_of (LastChar ?g1)]\<rparr>"
  have less: "pending ?g1 < pending g"
    using 1(2) by (rule pending_next_LastChar_less)
  show ?case
  proof (cases "isalnum (LastChar ?g1)")
    case True
    then have eq: "gettok_ident g = gettok_ident ?g2"
      by (simp add: gettok_ident.simps [of g] Let_def)
    from True have "LastChar ?g2 \<noteq> EOF"
      by (simp add: isalnum_not_EOF)
    with 1(1) True have "pending (gettok_ident ?g2) < pending ?g2"
      by simp
    moreover have "pending ?g2 = pending ?g1"
      by (simp add: pending_def)
    ultimately show ?thesis using eq less by simp
  next
    case False
    then have "gettok_ident g = ?g1"
      by (simp add: gettok_ident.simps [of g] Let_def)
    with less show ?thesis by simp
  qed
qed

lemma pending_gettok_number:
  "LastChar g \<noteq> EOF \<Longrightarrow> pending (snd (gettok_number s g)) < pending g"
proof (induction s g rule: gettok_number.induct)
  case (1 NumStr g)
  let ?s1 = "NumStr @ [char_of (LastChar g)]"
  let ?g1 = "next_LastChar g"
  have less: "pending ?g1 < pending g"
    using 1(2) by (rule pending_next_LastChar_less)
  show ?case
  proof (cases "isdigit (LastChar ?g1) \<or> LastChar ?g1 = 46")
    case True
    then have eq: "gettok_number NumStr g = gettok_number ?s1 ?g1"
      by (simp add: gettok_number.simps [of NumStr g] Let_def)
    from True have "LastChar ?g1 \<noteq> EOF"
      by (auto simp: isdigit_def EOF_def)
    with 1(1) True have "pending (snd (gettok_number ?s1 ?g1)) < pending ?g1"
      by simp
    with eq less show ?thesis by simp
  next
    case False
    then have "gettok_number NumStr g = (?s1, ?g1)"
      by (simp add: gettok_number.simps [of NumStr g] Let_def)
    with less show ?thesis by simp
  qed
qed

lemma pending_gettok_comment:
  "LastChar g \<noteq> EOF \<Longrightarrow> pending (gettok_comment g) < pending g"
proof (induction g rule: gettok_comment.induct)
  case (1 g)
  let ?g1 = "next_LastChar g"
  have less: "pending ?g1 < pending g"
    using 1(2) by (rule pending_next_LastChar_less)
  show ?case
  proof (cases "LastChar ?g1 \<noteq> EOF \<and> LastChar ?g1 \<noteq> 10 \<and> LastChar ?g1 \<noteq> 13")
    case True
    then have eq: "gettok_comment g = gettok_comment ?g1"
      by (simp add: gettok_comment.simps [of g] Let_def)
    from 1(1) True have "pending (gettok_comment ?g1) < pending ?g1"
      by simp
    with eq less show ?thesis by simp
  next
    case False
    then have "gettok_comment g = ?g1"
      by (auto simp add: gettok_comment.simps [of g] Let_def)
    with less show ?thesis by simp
  qed
qed

text \<open>The branches of \<open>gettok\<close>, one equation each.\<close>

lemma gettok_alpha:
  "isalpha (LastChar (gettok_space g0)) \<Longrightarrow>
   gettok strtod g0 =
     (let g = gettok_space g0;
          g1 = gettok_ident (g\<lparr>IdentifierStr := [char_of (LastChar g)]\<rparr>) in
      if IdentifierStr g1 = ''def'' then (tok_def, g1)
      else if IdentifierStr g1 = ''extern'' then (tok_extern, g1)
      else (tok_identifier, g1))"
  by (simp add: gettok.simps [of strtod g0] Let_def)

lemma gettok_num:
  "isdigit (LastChar (gettok_space g0)) \<or> LastChar (gettok_space g0) = 46 \<Longrightarrow>
   gettok strtod g0 =
     (case gettok_number [] (gettok_space g0) of
        (NumStr, g1) \<Rightarrow> (tok_number, g1\<lparr>NumVal := strtod NumStr\<rparr>))"
  by (auto simp add: gettok.simps [of strtod g0] Let_def isalpha_def isdigit_def)

lemma gettok_hash:
  "LastChar (gettok_space g0) = 35 \<Longrightarrow>
   gettok strtod g0 =
     (let g1 = gettok_comment (gettok_space g0) in
      if LastChar g1 \<noteq> EOF then gettok strtod g1 else (tok_eof, g1))"
  by (simp add: gettok.simps [of strtod g0] Let_def isalpha_def isdigit_def)

lemma gettok_other:
  "\<not> isalpha (LastChar (gettok_space g0)) \<Longrightarrow>
   \<not> isdigit (LastChar (gettok_space g0)) \<Longrightarrow>
   LastChar (gettok_space g0) \<noteq> 46 \<Longrightarrow>
   LastChar (gettok_space g0) \<noteq> 35 \<Longrightarrow>
   gettok strtod g0 =
     (let g = gettok_space g0 in
      if LastChar g = EOF then (tok_eof, g) else (LastChar g, next_LastChar g))"
  by (simp add: gettok.simps [of strtod g0] Let_def)

text \<open>A call of \<open>gettok\<close> never gives characters back, and a token other than
  \<open>tok_eof\<close> has consumed at least one.\<close>

lemma pending_gettok:
  "pending (snd (gettok strtod g0)) \<le> pending g0 \<and>
   (fst (gettok strtod g0) \<noteq> tok_eof \<longrightarrow> pending (snd (gettok strtod g0)) < pending g0)"
proof (induction strtod g0 rule: gettok.induct)
  case (1 strtod g0)
  let ?g = "gettok_space g0"
  have sp: "pending ?g \<le> pending g0"
    by (rule pending_gettok_space)
  consider (alpha) "isalpha (LastChar ?g)"
    | (num) "\<not> isalpha (LastChar ?g)" "isdigit (LastChar ?g) \<or> LastChar ?g = 46"
    | (hash) "\<not> isalpha (LastChar ?g)" "\<not> (isdigit (LastChar ?g) \<or> LastChar ?g = 46)"
        "LastChar ?g = 35"
    | (other) "\<not> isalpha (LastChar ?g)" "\<not> (isdigit (LastChar ?g) \<or> LastChar ?g = 46)"
        "LastChar ?g \<noteq> 35"
    by blast
  then show ?case
  proof cases
    case alpha
    let ?g1 = "gettok_ident (?g\<lparr>IdentifierStr := [char_of (LastChar ?g)]\<rparr>)"
    from alpha have "pending ?g1 < pending (?g\<lparr>IdentifierStr := [char_of (LastChar ?g)]\<rparr>)"
      by (intro pending_gettok_ident) (simp add: isalpha_not_EOF)
    with sp show ?thesis
      by (simp add: gettok_alpha [OF alpha] Let_def)
  next
    case num
    then have "LastChar ?g \<noteq> EOF"
      by (auto simp: isdigit_def EOF_def)
    then have "pending (snd (gettok_number [] ?g)) < pending ?g"
      by (rule pending_gettok_number)
    with sp show ?thesis
      by (auto simp add: gettok_num [OF num(2)] split: prod.splits)
  next
    case hash
    let ?g1 = "gettok_comment ?g"
    from hash(3) have c: "pending ?g1 < pending ?g"
      by (intro pending_gettok_comment) (simp add: EOF_def)
    show ?thesis
    proof (cases "LastChar ?g1 = EOF")
      case True
      with c sp show ?thesis
        by (simp add: gettok_hash [OF hash(3)] Let_def)
    next
      case False
      have "pending (snd (gettok strtod ?g1)) \<le> pending ?g1"
        using 1 [OF refl hash(1,2) refl] hash(3) False by simp
      with False c sp show ?thesis
        by (simp add: gettok_hash [OF hash(3)] Let_def)
    qed
  next
    case other
    show ?thesis
    proof (cases "LastChar ?g = EOF")
      case True
      with sp other show ?thesis
        by (simp add: gettok_other Let_def)
    next
      case False
      with sp other pending_next_LastChar_less [OF False] show ?thesis
        by (simp add: gettok_other Let_def)
    qed
  qed
qed

subsection \<open>The parser\<close>

text \<open>
  A parse function returns a pointer, null on failure: here an \<open>option\<close>, together
  with the state, since the tokens that a failed parse has consumed stay consumed.
  \<open>LogError\<close> writes the message to standard error and returns the null pointer.
\<close>

definition LogError :: "string \<Rightarrow> 'v globals \<Rightarrow> 'a option \<times> 'v globals" where
  "LogError Str g = (None, g\<lparr>stderr := stderr g @ [''Error: '' @ Str @ [CHR 0x0A]]\<rparr>)"

text \<open>
  The subscript operator of \<open>std::map\<close>: a key that is absent is inserted with the
  value 0, and the value stored for the key is returned.
\<close>

definition map_subscript :: "('k \<rightharpoonup> int) \<Rightarrow> 'k \<Rightarrow> int \<times> ('k \<rightharpoonup> int)" where
  "map_subscript m k = (case m k of None \<Rightarrow> (0, m(k \<mapsto> 0)) | Some v \<Rightarrow> (v, m))"

text \<open>
  \<open>GetTokPrecedence\<close> reads the table with the subscript operator, so it may change
  the table. The key is the current token as a \<open>char\<close>. The precedences are small, and
  \<open>int\<close> is modelled without a bound.
\<close>

definition GetTokPrecedence :: "'v globals \<Rightarrow> int \<times> 'v globals" where
  "GetTokPrecedence g =
     (if \<not> isascii (CurTok g) then (- 1, g)
      else
        (case map_subscript (BinopPrecedence g) (char_of (CurTok g)) of
           (TokPrec, m) \<Rightarrow>
             (let g1 = g\<lparr>BinopPrecedence := m\<rparr> in
              if TokPrec \<le> 0 then (- 1, g1) else (TokPrec, g1))))"

text \<open>\<open>numberexpr ::= number\<close>\<close>

definition ParseNumberExpr :: "(string \<Rightarrow> 'v) \<Rightarrow> 'v globals \<Rightarrow> 'v ExprAST option \<times> 'v globals" where
  "ParseNumberExpr strtod g =
     (let Result = NumberExprAST (NumVal g);
          g1 = snd (getNextToken strtod g) in
      (Some Result, g1))"

text \<open>
  What is left to parse: twice the characters not yet consumed, and one more while the
  current token is not the end of the input. Every \<open>getNextToken\<close> on a current token
  other than \<open>tok_eof\<close> makes it smaller, and none makes it larger.
\<close>

definition unread :: "'v globals \<Rightarrow> nat" where
  "unread g = 2 * pending g + (if CurTok g = tok_eof then 0 else 1)"

lemma unread_getNextToken: "unread (snd (getNextToken strtod g)) \<le> unread g"
  using pending_gettok [of strtod g]
  by (auto simp: unread_def getNextToken_def split: prod.splits)

lemma unread_getNextToken_less:
  "CurTok g \<noteq> tok_eof \<Longrightarrow> unread (snd (getNextToken strtod g)) < unread g"
  using pending_gettok [of strtod g]
  by (auto simp: unread_def getNextToken_def split: prod.splits)

lemma unread_GetTokPrecedence [simp]: "unread (snd (GetTokPrecedence g)) = unread g"
  by (simp add: GetTokPrecedence_def Let_def unread_def split: prod.splits)


lemma unread_LogError [simp]: "unread (snd (LogError s g)) = unread g"
  by (simp add: LogError_def unread_def)

lemma fst_LogError [simp]: "fst (LogError s g) = None"
  by (simp add: LogError_def)

text \<open>
  The order in which the calls decrease: first the number of unread characters and
  tokens, then the position of the function in the call chain. \<open>ParseParenExpr\<close> is
  above \<open>ParseExpression\<close> when it is entered on a token other than the parenthesis,
  since only then may its first \<open>getNextToken\<close> consume nothing.
\<close>

fun Parse_measure ::
  "(((string \<Rightarrow> 'v) \<times> 'v globals) + ((string \<Rightarrow> 'v) \<times> 'v globals) +
      ((string \<Rightarrow> 'v) \<times> 'v globals)) +
   ((string \<Rightarrow> 'v) \<times> 'v ExprAST list \<times> 'v globals) + ((string \<Rightarrow> 'v) \<times> 'v globals) +
   ((string \<Rightarrow> 'v) \<times> int \<times> 'v ExprAST \<times> 'v globals) \<Rightarrow> nat \<times> nat" where
  "Parse_measure (Inl (Inl (strtod, g))) = (unread g, 2)"
| "Parse_measure (Inl (Inr (Inl (strtod, g)))) = (unread g, if CurTok g = 40 then 1 else 5)"
| "Parse_measure (Inl (Inr (Inr (strtod, g)))) = (unread g, 1)"
| "Parse_measure (Inr (Inl (strtod, Args, g))) = (unread g, 4)"
| "Parse_measure (Inr (Inr (Inl (strtod, g)))) = (unread g, 3)"
| "Parse_measure (Inr (Inr (Inr (strtod, ExprPrec, LHS, g)))) = (unread g, 3)"

text \<open>
  The mutually recursive parse functions. \<open>ParseIdentifierExpr_args\<close> is the loop
  that reads the arguments of a call, with the arguments read so far; the loop of
  \<open>ParseBinOpRHS\<close> is the call of the function on the merged expression. The
  characters in the tests are \<open>(\<close> (40), \<open>)\<close> (41) and the comma (44); 0x27 is the
  single quote of the messages.
\<close>

function ParsePrimary :: "(string \<Rightarrow> 'v) \<Rightarrow> 'v globals \<Rightarrow> 'v ExprAST option \<times> 'v globals"
  and ParseParenExpr :: "(string \<Rightarrow> 'v) \<Rightarrow> 'v globals \<Rightarrow> 'v ExprAST option \<times> 'v globals"
  and ParseIdentifierExpr :: "(string \<Rightarrow> 'v) \<Rightarrow> 'v globals \<Rightarrow> 'v ExprAST option \<times> 'v globals"
  and ParseIdentifierExpr_args ::
    "(string \<Rightarrow> 'v) \<Rightarrow> 'v ExprAST list \<Rightarrow> 'v globals \<Rightarrow> 'v ExprAST list option \<times> 'v globals"
  and ParseExpression :: "(string \<Rightarrow> 'v) \<Rightarrow> 'v globals \<Rightarrow> 'v ExprAST option \<times> 'v globals"
  and ParseBinOpRHS ::
    "(string \<Rightarrow> 'v) \<Rightarrow> int \<Rightarrow> 'v ExprAST \<Rightarrow> 'v globals \<Rightarrow> 'v ExprAST option \<times> 'v globals"
where
  "ParsePrimary strtod g =
     (if CurTok g = tok_identifier then ParseIdentifierExpr strtod g
      else if CurTok g = tok_number then ParseNumberExpr strtod g
      else if CurTok g = 40 then ParseParenExpr strtod g
      else LogError ''Unknown token: expected an expression'' g)"
| "ParseParenExpr strtod g =
     (case ParseExpression strtod (snd (getNextToken strtod g)) of
        (None, g1) \<Rightarrow> (None, g1)
      | (Some V, g1) \<Rightarrow>
          if CurTok g1 \<noteq> 41 then LogError (''expected '' @ [CHR 0x27] @ '')'' @ [CHR 0x27]) g1
          else (Some V, snd (getNextToken strtod g1)))"
| "ParseIdentifierExpr strtod g =
     (let IdName = IdentifierStr g;
          g1 = snd (getNextToken strtod g) in
      if CurTok g1 \<noteq> 40 then (Some (VariableExprAST IdName), g1)
      else
        (let g2 = snd (getNextToken strtod g1) in
         case (if CurTok g2 \<noteq> 41 then ParseIdentifierExpr_args strtod [] g2
               else (Some [], g2)) of
           (None, g3) \<Rightarrow> (None, g3)
         | (Some Args, g3) \<Rightarrow>
             (Some (CallExprAST IdName Args), snd (getNextToken strtod g3))))"
| "ParseIdentifierExpr_args strtod Args g =
     (case ParseExpression strtod g of
        (None, g1) \<Rightarrow> (None, g1)
      | (Some Arg, g1) \<Rightarrow>
          (let Args1 = Args @ [Arg] in
           if CurTok g1 = 41 then (Some Args1, g1)
           else if CurTok g1 \<noteq> 44
           then LogError (''Expected '' @ [CHR 0x27] @ '')'' @ [CHR 0x27] @ '' or '' @
                          [CHR 0x27] @ '','' @ [CHR 0x27] @ '' in argument list'') g1
           else ParseIdentifierExpr_args strtod Args1 (snd (getNextToken strtod g1))))"
| "ParseExpression strtod g =
     (case ParsePrimary strtod g of
        (None, g1) \<Rightarrow> (None, g1)
      | (Some LHS, g1) \<Rightarrow> ParseBinOpRHS strtod 0 LHS g1)"
| "ParseBinOpRHS strtod ExprPrec LHS g =
     (case GetTokPrecedence g of
        (TokPrec, g1) \<Rightarrow>
          if TokPrec < ExprPrec then (Some LHS, g1)
          else
            (let BinOp = CurTok g1;
                 g2 = snd (getNextToken strtod g1) in
             case ParsePrimary strtod g2 of
               (None, g3) \<Rightarrow> (None, g3)
             | (Some RHS, g3) \<Rightarrow>
                 (case GetTokPrecedence g3 of
                    (NextPrec, g4) \<Rightarrow>
                      (case (if TokPrec < NextPrec
                             then ParseBinOpRHS strtod (TokPrec + 1) RHS g4
                             else (Some RHS, g4)) of
                         (None, g5) \<Rightarrow> (None, g5)
                       | (Some RHS1, g5) \<Rightarrow>
                           ParseBinOpRHS strtod ExprPrec
                             (BinaryExprAST (char_of BinOp) LHS RHS1) g5))))"
  by pat_completeness auto

text \<open>
  Before the functions are known to terminate, on the domain of each: no call gives
  input back, and a primary expression that is parsed has consumed some.
\<close>

lemmas Parse_pinduct =
  ParsePrimary_ParseParenExpr_ParseIdentifierExpr_ParseIdentifierExpr_args_ParseExpression_ParseBinOpRHS.pinduct

lemma unread_Parse_dom:
  "ParsePrimary_ParseParenExpr_ParseIdentifierExpr_ParseIdentifierExpr_args_ParseExpression_ParseBinOpRHS_dom
     (Inl (Inl (strtod, g))) \<Longrightarrow>
   unread (snd (ParsePrimary strtod g)) \<le> unread g \<and>
   (fst (ParsePrimary strtod g) \<noteq> None \<longrightarrow> unread (snd (ParsePrimary strtod g)) < unread g)"
  "ParsePrimary_ParseParenExpr_ParseIdentifierExpr_ParseIdentifierExpr_args_ParseExpression_ParseBinOpRHS_dom
     (Inl (Inr (Inl (strtod, g)))) \<Longrightarrow>
   unread (snd (ParseParenExpr strtod g)) \<le> unread g \<and>
   (CurTok g \<noteq> tok_eof \<longrightarrow> unread (snd (ParseParenExpr strtod g)) < unread g)"
  "ParsePrimary_ParseParenExpr_ParseIdentifierExpr_ParseIdentifierExpr_args_ParseExpression_ParseBinOpRHS_dom
     (Inl (Inr (Inr (strtod, g)))) \<Longrightarrow>
   unread (snd (ParseIdentifierExpr strtod g)) \<le> unread g \<and>
   (CurTok g \<noteq> tok_eof \<longrightarrow> unread (snd (ParseIdentifierExpr strtod g)) < unread g)"
  "ParsePrimary_ParseParenExpr_ParseIdentifierExpr_ParseIdentifierExpr_args_ParseExpression_ParseBinOpRHS_dom
     (Inr (Inl (strtod, Args, g))) \<Longrightarrow>
   unread (snd (ParseIdentifierExpr_args strtod Args g)) \<le> unread g"
  "ParsePrimary_ParseParenExpr_ParseIdentifierExpr_ParseIdentifierExpr_args_ParseExpression_ParseBinOpRHS_dom
     (Inr (Inr (Inl (strtod, g)))) \<Longrightarrow>
   unread (snd (ParseExpression strtod g)) \<le> unread g"
  "ParsePrimary_ParseParenExpr_ParseIdentifierExpr_ParseIdentifierExpr_args_ParseExpression_ParseBinOpRHS_dom
     (Inr (Inr (Inr (strtod, ExprPrec, LHS, g)))) \<Longrightarrow>
   unread (snd (ParseBinOpRHS strtod ExprPrec LHS g)) \<le> unread g"
proof (induct rule: Parse_pinduct)
  case (1 strtod g)
  have n: "unread (snd (ParseNumberExpr strtod g)) \<le> unread g"
    by (simp add: ParseNumberExpr_def unread_getNextToken)
  have n': "CurTok g = tok_number \<Longrightarrow> unread (snd (ParseNumberExpr strtod g)) < unread g"
    by (simp add: ParseNumberExpr_def unread_getNextToken_less tok_number_def tok_eof_def)
  show ?case
    using 1(2,3) n n'
    by (auto simp: ParsePrimary.psimps [OF 1(1)] tok_identifier_def tok_eof_def)
next
  case (2 strtod g)
  let ?g0 = "snd (getNextToken strtod g)"
  obtain r g1 where e: "ParseExpression strtod ?g0 = (r, g1)"
    by (cases "ParseExpression strtod ?g0")
  with 2(2) have "unread g1 \<le> unread ?g0" by simp
  moreover have "unread (snd (getNextToken strtod g1)) \<le> unread g1"
    by (rule unread_getNextToken)
  ultimately show ?case
    using unread_getNextToken [of strtod g] unread_getNextToken_less [of g strtod] e
    by (auto simp: ParseParenExpr.psimps [OF 2(1)] split: option.splits)
next
  case (3 strtod g)
  let ?g1 = "snd (getNextToken strtod g)"
  let ?g2 = "snd (getNextToken strtod ?g1)"
  have a: "unread ?g1 \<le> unread g" "CurTok g \<noteq> tok_eof \<Longrightarrow> unread ?g1 < unread g"
    by (simp_all add: unread_getNextToken unread_getNextToken_less)
  have b: "unread ?g2 \<le> unread ?g1"
    by (rule unread_getNextToken)
  show ?case
  proof (cases "CurTok ?g1 \<noteq> 40")
    case True
    with a show ?thesis
      by (auto simp: ParseIdentifierExpr.psimps [OF 3(1)] Let_def)
  next
    case paren: False
    obtain r g3 where e:
      "(if CurTok ?g2 \<noteq> 41 then ParseIdentifierExpr_args strtod [] ?g2 else (Some [], ?g2)) = (r, g3)"
      by (cases "if CurTok ?g2 \<noteq> 41 then ParseIdentifierExpr_args strtod [] ?g2 else (Some [], ?g2)")
    have "unread g3 \<le> unread ?g2"
      using 3(2) [OF refl refl paren refl] e by (auto split: if_splits)
    moreover have "unread (snd (getNextToken strtod g3)) \<le> unread g3"
      by (rule unread_getNextToken)
    ultimately show ?thesis
      using a b paren e
      by (auto simp: ParseIdentifierExpr.psimps [OF 3(1)] Let_def split: option.splits)
  qed
next
  case (4 strtod Args g)
  obtain r g1 where e: "ParseExpression strtod g = (r, g1)"
    by (cases "ParseExpression strtod g")
  with 4(2) have le: "unread g1 \<le> unread g" by simp
  show ?case
  proof (cases r)
    case None
    with e le show ?thesis
      by (simp add: ParseIdentifierExpr_args.psimps [OF 4(1)])
  next
    case (Some Arg)
    show ?thesis
    proof (cases "CurTok g1 \<noteq> 41 \<and> \<not> CurTok g1 \<noteq> 44")
      case True
      then have "unread (snd (ParseIdentifierExpr_args strtod (Args @ [Arg])
                   (snd (getNextToken strtod g1)))) \<le> unread (snd (getNextToken strtod g1))"
        using 4(3) [OF e [symmetric] Some refl] by simp
      with True e Some le unread_getNextToken [of strtod g1] show ?thesis
        by (simp add: ParseIdentifierExpr_args.psimps [OF 4(1)] Let_def)
    next
      case False
      with e Some le show ?thesis
        by (auto simp add: ParseIdentifierExpr_args.psimps [OF 4(1)] Let_def)
    qed
  qed
next
  case (5 strtod g)
  obtain r g1 where e: "ParsePrimary strtod g = (r, g1)"
    by (cases "ParsePrimary strtod g")
  with 5(2) have le: "unread g1 \<le> unread g" by simp
  show ?case
  proof (cases r)
    case None
    with e le show ?thesis
      by (simp add: ParseExpression.psimps [OF 5(1)])
  next
    case (Some LHS)
    with 5(3) [OF e [symmetric] Some] e le show ?thesis
      by (simp add: ParseExpression.psimps [OF 5(1)])
  qed
next
  case (6 strtod ExprPrec LHS g)
  obtain TokPrec g1 where t: "GetTokPrecedence g = (TokPrec, g1)"
    by (cases "GetTokPrecedence g")
  then have g1: "unread g1 = unread g"
    using unread_GetTokPrecedence [of g] by simp
  show ?case
  proof (cases "TokPrec < ExprPrec")
    case True
    with t g1 show ?thesis
      by (simp add: ParseBinOpRHS.psimps [OF 6(1)])
  next
    case ge: False
    let ?g2 = "snd (getNextToken strtod g1)"
    have g2: "unread ?g2 \<le> unread g"
      using unread_getNextToken [of strtod g1] g1 by simp
    obtain r g3 where p: "ParsePrimary strtod ?g2 = (r, g3)"
      by (cases "ParsePrimary strtod ?g2")
    have g3: "unread g3 \<le> unread ?g2"
      using 6(2) [OF t [symmetric] ge refl refl] p by simp
    show ?thesis
    proof (cases r)
      case None
      with t ge p g2 g3 show ?thesis
        by (simp add: ParseBinOpRHS.psimps [OF 6(1)] Let_def)
    next
      case (Some RHS)
      obtain NextPrec g4 where n: "GetTokPrecedence g3 = (NextPrec, g4)"
        by (cases "GetTokPrecedence g3")
      then have g4: "unread g4 = unread g3"
        using unread_GetTokPrecedence [of g3] by simp
      let ?inner = "if TokPrec < NextPrec then ParseBinOpRHS strtod (TokPrec + 1) RHS g4
                    else (Some RHS, g4)"
      obtain r5 g5 where i: "?inner = (r5, g5)"
        by (cases ?inner)
      have g5: "unread g5 \<le> unread g4"
      proof (cases "TokPrec < NextPrec")
        case True
        with 6(3) [OF t [symmetric] ge refl refl p [symmetric] Some n [symmetric] True] i
        show ?thesis by simp
      next
        case False
        with i show ?thesis by simp
      qed
      show ?thesis
      proof (cases r5)
        case None
        with t ge p Some n i g2 g3 g4 g5 show ?thesis
          by (simp add: ParseBinOpRHS.psimps [OF 6(1)] Let_def)
      next
        case (Some RHS1)
        note s5 = this
        have "unread (snd (ParseBinOpRHS strtod ExprPrec
                 (BinaryExprAST (char_of (CurTok g1)) LHS RHS1) g5)) \<le> unread g5"
          using 6(4) [OF t [symmetric] ge refl refl p [symmetric] \<open>r = Some RHS\<close>
                         n [symmetric] i [symmetric] s5] .
        with t ge p \<open>r = Some RHS\<close> n i s5 g2 g3 g4 g5 show ?thesis
          by (simp add: ParseBinOpRHS.psimps [OF 6(1)] Let_def)
      qed
    qed
  qed
qed

lemma Parse_terminates:
  "All ParsePrimary_ParseParenExpr_ParseIdentifierExpr_ParseIdentifierExpr_args_ParseExpression_ParseBinOpRHS_dom"
proof (rule "ParsePrimary_ParseParenExpr_ParseIdentifierExpr_ParseIdentifierExpr_args_ParseExpression_ParseBinOpRHS.termination"
         [of "inv_image (less_than <*lex*> less_than) Parse_measure"], goal_cases)
  case 1
  show ?case by (intro wf_inv_image wf_lex_prod wf_less_than)
next
  case (2 strtod g)
  show ?case by simp
next
  case (3 strtod g)
  then show ?case by simp
next
  case (4 strtod g)
  show ?case
    using unread_getNextToken [of strtod g] unread_getNextToken_less [of g strtod]
    by (auto simp: tok_eof_def)
next
  case (5 strtod g x xa xb)
  then have "CurTok xa \<noteq> tok_eof"
    by (simp add: tok_eof_def)
  then have "unread xb < unread xa"
    unfolding 5(4) by (rule unread_getNextToken_less)
  with unread_getNextToken [of strtod g] 5(2) show ?case by simp
next
  case (6 strtod Args g)
  show ?case by simp
next
  case (7 strtod Args g x y x2 xa)
  from 7(5) have "CurTok y \<noteq> tok_eof"
    by (simp add: tok_eof_def)
  then have "unread (snd (getNextToken strtod y)) < unread y"
    by (rule unread_getNextToken_less)
  moreover have "unread y \<le> unread g"
    using unread_Parse_dom(5) [OF 7(6)] 7(1) [symmetric] by simp
  ultimately show ?case by simp
next
  case (8 strtod g)
  show ?case by simp
next
  case (9 strtod g x y x2)
  then show ?case
    using unread_Parse_dom(1) [OF 9(3)] 9(1) [symmetric] by simp
next
  case (10 strtod ExprPrec LHS g x y xa xb)
  have "unread y = unread g"
    using unread_GetTokPrecedence [of g] 10(1) [symmetric] by simp
  with unread_getNextToken [of strtod y] 10(4) show ?case by auto
next
  case (11 strtod ExprPrec LHS g x y xa xb xc ya x2 xba yb)
  have a: "unread y = unread g"
    using unread_GetTokPrecedence [of g] 11(1) [symmetric] by simp
  have b: "unread xb \<le> unread y"
    using unread_getNextToken [of strtod y] 11(4) by simp
  have c: "unread ya < unread xb"
    using unread_Parse_dom(1) [OF 11(9)] 11(5) [symmetric] 11(6) by simp
  have d: "unread yb = unread ya"
    using unread_GetTokPrecedence [of ya] 11(7) [symmetric] by simp
  from a b c d show ?case by simp
next
  case (12 strtod ExprPrec LHS g x y xa xb xc ya x2 xba yb xbb yc x2a)
  have a: "unread y = unread g"
    using unread_GetTokPrecedence [of g] 12(1) [symmetric] by simp
  have b: "unread xb \<le> unread y"
    using unread_getNextToken [of strtod y] 12(4) by simp
  have c: "unread ya < unread xb"
    using unread_Parse_dom(1) [OF 12(11)] 12(5) [symmetric] 12(6) by simp
  have d: "unread yb = unread ya"
    using unread_GetTokPrecedence [of ya] 12(7) [symmetric] by simp
  have e: "unread yc \<le> unread yb"
  proof (cases "x < xba")
    case True
    with unread_Parse_dom(6) [OF 12(10) [OF True]] 12(8) [symmetric]
    show ?thesis by simp
  next
    case False
    with 12(8) show ?thesis by simp
  qed
  from a b c d e show ?case by simp
qed

termination ParsePrimary
  by (rule Parse_terminates)

declare ParsePrimary.simps [simp del] ParseParenExpr.simps [simp del]
  ParseIdentifierExpr.simps [simp del] ParseIdentifierExpr_args.simps [simp del]
  ParseExpression.simps [simp del] ParseBinOpRHS.simps [simp del]

text \<open>\<open>LogErrorProto\<close> logs through \<open>LogError\<close> and returns a null prototype.\<close>

definition LogErrorProto :: "string \<Rightarrow> 'v globals \<Rightarrow> PrototypeAST option \<times> 'v globals" where
  "LogErrorProto Str g = (None, snd (LogError Str g :: unit option \<times> 'v globals))"

text \<open>\<open>while (getNextToken() == tok_identifier) ArgNames.push_back(IdentifierStr);\<close>\<close>

function ParsePrototype_args ::
  "(string \<Rightarrow> 'v) \<Rightarrow> string list \<Rightarrow> 'v globals \<Rightarrow> string list \<times> 'v globals" where
  "ParsePrototype_args strtod ArgNames g =
     (case getNextToken strtod g of
        (t, g1) \<Rightarrow>
          if t = tok_identifier
          then ParsePrototype_args strtod (ArgNames @ [IdentifierStr g1]) g1
          else (ArgNames, g1))"
  by pat_completeness auto

lemma ParsePrototype_args_terminates: "All ParsePrototype_args_dom"
proof (rule "ParsePrototype_args.termination"
         [of "measure (\<lambda>(strtod, ArgNames, g). pending g)"], goal_cases)
  case 1
  show ?case by simp
next
  case (2 strtod ArgNames g t g1)
  then have "fst (gettok strtod g) \<noteq> tok_eof" "pending g1 = pending (snd (gettok strtod g))"
    by (auto simp: getNextToken_def tok_identifier_def tok_eof_def split: prod.splits)
  with pending_gettok [of strtod g] show ?case by simp
qed

termination ParsePrototype_args
  by (rule ParsePrototype_args_terminates)

declare ParsePrototype_args.simps [simp del]

text \<open>The prototype: a name and the names of the parameters in parentheses.\<close>

definition ParsePrototype :: "(string \<Rightarrow> 'v) \<Rightarrow> 'v globals \<Rightarrow> PrototypeAST option \<times> 'v globals" where
  "ParsePrototype strtod g =
     (if CurTok g \<noteq> tok_identifier
      then LogErrorProto ''Expected function name in prototype'' g
      else
        (let FnName = IdentifierStr g;
             g1 = snd (getNextToken strtod g) in
         if CurTok g1 \<noteq> 40
         then LogErrorProto (''Expected '' @ [CHR 0x27] @ ''('' @ [CHR 0x27] @ '' in prototype'') g1
         else
           (case ParsePrototype_args strtod [] g1 of
              (ArgNames, g2) \<Rightarrow>
                if CurTok g2 \<noteq> 41
                then LogErrorProto
                       (''Expected '' @ [CHR 0x27] @ '')'' @ [CHR 0x27] @ '' in prototype'') g2
                else (Some (PrototypeAST FnName ArgNames), snd (getNextToken strtod g2)))))"

text \<open>\<open>definition ::= 'def' prototype expression\<close>\<close>

definition ParseDefinition :: "(string \<Rightarrow> 'v) \<Rightarrow> 'v globals \<Rightarrow> 'v FunctionAST option \<times> 'v globals" where
  "ParseDefinition strtod g =
     (case ParsePrototype strtod (snd (getNextToken strtod g)) of
        (None, g1) \<Rightarrow> (None, g1)
      | (Some Proto, g1) \<Rightarrow>
          (case ParseExpression strtod g1 of
             (Some E, g2) \<Rightarrow> (Some (FunctionAST Proto E), g2)
           | (None, g2) \<Rightarrow> (None, g2)))"

text \<open>\<open>external ::= 'extern' prototype\<close>\<close>

definition ParseExtern :: "(string \<Rightarrow> 'v) \<Rightarrow> 'v globals \<Rightarrow> PrototypeAST option \<times> 'v globals" where
  "ParseExtern strtod g = ParsePrototype strtod (snd (getNextToken strtod g))"

text \<open>A top-level expression becomes the body of a function without a name.\<close>

definition ParseTopLevelExpr :: "(string \<Rightarrow> 'v) \<Rightarrow> 'v globals \<Rightarrow> 'v FunctionAST option \<times> 'v globals" where
  "ParseTopLevelExpr strtod g =
     (case ParseExpression strtod g of
        (Some E, g1) \<Rightarrow> (Some (FunctionAST (PrototypeAST [] []) E), g1)
      | (None, g1) \<Rightarrow> (None, g1))"

subsection \<open>The start of the program\<close>

text \<open>
  The static variables as the program starts, with the whole input still to be read:
  \<open>LastChar\<close> is a blank, the numbers are zero, the string and the table are empty.
  (The three expression objects that the program also builds at its start are never
  used.)
\<close>

definition initial_globals :: "string \<Rightarrow> ('v::zero) globals" where
  "initial_globals inp =
     \<lparr>stdin = inp, stderr = [], LastChar = 32, IdentifierStr = [], NumVal = 0, CurTok = 0,
      BinopPrecedence = Map.empty\<rparr>"

text \<open>
  The statements of \<open>main\<close> before it enters \<open>MainLoop\<close>: the four operators are
  installed, the prompt is printed and the first token is read.
\<close>

definition main_setup :: "(string \<Rightarrow> 'v) \<Rightarrow> 'v globals \<Rightarrow> 'v globals" where
  "main_setup strtod g =
     (let g1 = g\<lparr>BinopPrecedence := (BinopPrecedence g)(CHR ''<'' \<mapsto> 10)\<rparr>;
          g2 = g1\<lparr>BinopPrecedence := (BinopPrecedence g1)(CHR ''+'' \<mapsto> 20)\<rparr>;
          g3 = g2\<lparr>BinopPrecedence := (BinopPrecedence g2)(CHR ''-'' \<mapsto> 30)\<rparr>;
          g4 = g3\<lparr>BinopPrecedence := (BinopPrecedence g3)(CHR ''*'' \<mapsto> 40)\<rparr>;
          g5 = g4\<lparr>stderr := stderr g4 @ [''> '']\<rparr> in
      snd (getNextToken strtod g5))"

section \<open>Notions used in the properties\<close>

subsection \<open>A stand-in for the library\<close>

text \<open>
  An instance of the parameter \<open>strtod\<close> for closed examples: the value of the leading
  decimal digits of the text. This is what the library function returns for a short run
  of digits without a decimal point.
\<close>

definition strtod_digits :: "string \<Rightarrow> int" where
  "strtod_digits s =
     foldl (\<lambda>n c. 10 * n + (of_char c - 48)) 0 (takeWhile (\<lambda>c. isdigit (of_char c)) s)"

subsection \<open>Characters and runs\<close>

text \<open>The test of the number loop of \<open>gettok\<close>, on a character of the input.\<close>

definition number_char :: "char \<Rightarrow> bool" where
  "number_char c \<longleftrightarrow> isdigit (of_char c) \<or> of_char c = (46::int)"

text \<open>The tests of the other loops of the lexer, on a character of the input.\<close>

definition space_char :: "char \<Rightarrow> bool" where
  "space_char c \<longleftrightarrow> isspace (of_char c)"

definition alnum_char :: "char \<Rightarrow> bool" where
  "alnum_char c \<longleftrightarrow> isalnum (of_char c)"

subsection \<open>Token sequences and comments\<close>

text \<open>
  The characters that the comment loop skips: all but the two that end a line.
\<close>

definition comment_char :: "char \<Rightarrow> bool" where
  "comment_char c \<longleftrightarrow> c \<noteq> CHR 0x0A \<and> c \<noteq> CHR 0x0D"

text \<open>
  The stream with the comments removed, in the words of the specification: a comment
  starts at \<open>#\<close> and runs to the end of its line; the character that ends the line
  stays.
\<close>

function strip_comments :: "string \<Rightarrow> string" where
  "strip_comments [] = []"
| "strip_comments (c # cs) =
     (if c = CHR ''#'' then strip_comments (dropWhile comment_char cs)
      else c # strip_comments cs)"
  by pat_completeness auto

lemma strip_comments_terminates: "All strip_comments_dom"
  by (rule "strip_comments.termination" [of "measure length"])
     (auto simp: less_Suc_eq_le length_dropWhile_le)

termination strip_comments
  by (rule strip_comments_terminates)

text \<open>
  The sequence of tokens that repeated calls of \<open>gettok\<close> produce up to the end of
  the input, each with the values of \<open>IdentifierStr\<close> and \<open>NumVal\<close> that go with it.
\<close>

function tokens :: "(string \<Rightarrow> 'v) \<Rightarrow> 'v globals \<Rightarrow> (int \<times> string \<times> 'v) list" where
  "tokens strtod g =
     (case gettok strtod g of
        (t, g') \<Rightarrow>
          if t = tok_eof then [] else (t, IdentifierStr g', NumVal g') # tokens strtod g')"
  by pat_completeness auto

lemma tokens_terminates: "All tokens_dom"
proof (rule "tokens.termination" [of "measure (\<lambda>(strtod, g). pending g)"], goal_cases)
  case 1
  show ?case by simp
next
  case (2 strtod g t g')
  then have "fst (gettok strtod g) \<noteq> tok_eof" "snd (gettok strtod g) = g'"
    by (metis fst_conv, metis snd_conv)
  with pending_gettok [of strtod g] show ?case by simp
qed

termination tokens
  by (rule tokens_terminates)

declare tokens.simps [simp del]

subsection \<open>States of the lexer\<close>

text \<open>The lexer leaves the token buffer, the table and the error output alone.\<close>

definition same_parser_vars :: "'v globals \<Rightarrow> 'v globals \<Rightarrow> bool" where
  "same_parser_vars g g' \<longleftrightarrow>
     CurTok g' = CurTok g \<and> BinopPrecedence g' = BinopPrecedence g \<and> stderr g' = stderr g"

text \<open>
  The lexer keeps in \<open>LastChar\<close> a byte or \<open>EOF\<close>, and \<open>EOF\<close> only when the
  input is exhausted. The characters it has not consumed are then \<open>LastChar\<close> and the
  unread input; \<open>after_run P\<close> is the state in which the unread characters that satisfy
  \<open>P\<close> have been consumed and the next one is in \<open>LastChar\<close>.
\<close>

definition lexer_ok :: "'v globals \<Rightarrow> bool" where
  "lexer_ok g \<longleftrightarrow> (LastChar g = EOF \<and> stdin g = []) \<or> (0 \<le> LastChar g \<and> LastChar g \<le> 255)"

definition unconsumed :: "'v globals \<Rightarrow> string" where
  "unconsumed g = (if LastChar g = EOF then [] else char_of (LastChar g) # stdin g)"

definition after_run :: "(char \<Rightarrow> bool) \<Rightarrow> 'v globals \<Rightarrow> 'v globals" where
  "after_run P g =
     g\<lparr>stdin := tl (dropWhile P (stdin g)),
       LastChar := (case dropWhile P (stdin g) of [] \<Rightarrow> EOF | c # cs \<Rightarrow> of_char c)\<rparr>"

text \<open>What one call of \<open>gettok\<close> returns and leaves unconsumed.\<close>

definition scanned :: "(string \<Rightarrow> 'v) \<Rightarrow> 'v globals \<Rightarrow> int \<times> string \<times> 'v \<times> string" where
  "scanned strtod g =
     (case gettok strtod g of (t, g') \<Rightarrow> (t, IdentifierStr g', NumVal g', unconsumed g'))"

text \<open>
  Two states of the lexer of which the second has the unconsumed input of the first
  without its comments, up to the white space that the next call skips.
\<close>

definition same_but_comments :: "'v globals \<Rightarrow> 'v globals \<Rightarrow> bool" where
  "same_but_comments g g' \<longleftrightarrow>
     lexer_ok g \<and> lexer_ok g' \<and>
     dropWhile space_char (unconsumed g') =
       dropWhile space_char (strip_comments (unconsumed g)) \<and>
     IdentifierStr g' = IdentifierStr g \<and> NumVal g' = NumVal g"

subsection \<open>Trees and nesting\<close>

text \<open>
  The left spine of an expression: the expression itself, its left operand when it is a
  binary expression, the left operand of that one, and so on. A node on the left spine of
  a tree is the tree or lies below it, reached through left operands only.
\<close>

fun left_spine :: "'v ExprAST \<Rightarrow> 'v ExprAST list" where
  "left_spine (BinaryExprAST Op LHS RHS) = BinaryExprAST Op LHS RHS # left_spine LHS"
| "left_spine (NumberExprAST Val) = [NumberExprAST Val]"
| "left_spine (VariableExprAST Name) = [VariableExprAST Name]"
| "left_spine (CallExprAST Callee Args) = [CallExprAST Callee Args]"



section \<open>Properties\<close>

subsection \<open>What the lexer leaves alone\<close>

lemma same_parser_vars_refl [simp]: "same_parser_vars g g"
  by (simp add: same_parser_vars_def)

lemma same_parser_vars_trans:
  "same_parser_vars g g1 \<Longrightarrow> same_parser_vars g1 g2 \<Longrightarrow> same_parser_vars g g2"
  by (simp add: same_parser_vars_def)

lemma same_parser_vars_updates [simp]:
  "same_parser_vars g (g'\<lparr>IdentifierStr := s\<rparr>) = same_parser_vars g g'"
  "same_parser_vars g (g'\<lparr>NumVal := v\<rparr>) = same_parser_vars g g'"
  "same_parser_vars g (g'\<lparr>LastChar := c\<rparr>) = same_parser_vars g g'"
  "same_parser_vars g (g'\<lparr>stdin := i\<rparr>) = same_parser_vars g g'"
  "same_parser_vars (g\<lparr>IdentifierStr := s\<rparr>) g' = same_parser_vars g g'"
  by (simp_all add: same_parser_vars_def)

lemma frame_next_LastChar [simp]: "same_parser_vars g (next_LastChar g)"
  by (simp add: next_LastChar_def getchar_def split: list.splits)

lemma frame_gettok_space: "same_parser_vars g (gettok_space g)"
proof (induction g rule: gettok_space.induct)
  case (1 g)
  show ?case
  proof (cases "isspace (LastChar g)")
    case True
    with 1 have "same_parser_vars (next_LastChar g) (gettok_space g)"
      by (simp add: gettok_space.simps [of g])
    then show ?thesis
      by (rule same_parser_vars_trans [OF frame_next_LastChar])
  next
    case False
    then show ?thesis by (simp add: gettok_space.simps [of g])
  qed
qed

lemma frame_gettok_ident: "same_parser_vars g (gettok_ident g)"
proof (induction g rule: gettok_ident.induct)
  case (1 g)
  let ?g1 = "next_LastChar g"
  show ?case
  proof (cases "isalnum (LastChar ?g1)")
    case True
    with 1 have "same_parser_vars ?g1 (gettok_ident g)"
      by (simp add: gettok_ident.simps [of g] Let_def)
    then show ?thesis
      by (rule same_parser_vars_trans [OF frame_next_LastChar])
  next
    case False
    then show ?thesis by (simp add: gettok_ident.simps [of g] Let_def)
  qed
qed

lemma frame_gettok_number: "same_parser_vars g (snd (gettok_number s g))"
proof (induction s g rule: gettok_number.induct)
  case (1 NumStr g)
  let ?g1 = "next_LastChar g"
  show ?case
  proof (cases "isdigit (LastChar ?g1) \<or> LastChar ?g1 = 46")
    case True
    with 1 have "same_parser_vars ?g1 (snd (gettok_number NumStr g))"
      by (simp add: gettok_number.simps [of NumStr g] Let_def)
    then show ?thesis
      by (rule same_parser_vars_trans [OF frame_next_LastChar])
  next
    case False
    then show ?thesis by (simp add: gettok_number.simps [of NumStr g] Let_def)
  qed
qed

lemma frame_gettok_comment: "same_parser_vars g (gettok_comment g)"
proof (induction g rule: gettok_comment.induct)
  case (1 g)
  let ?g1 = "next_LastChar g"
  show ?case
  proof (cases "LastChar ?g1 \<noteq> EOF \<and> LastChar ?g1 \<noteq> 10 \<and> LastChar ?g1 \<noteq> 13")
    case True
    with 1 have "same_parser_vars ?g1 (gettok_comment g)"
      by (simp add: gettok_comment.simps [of g] Let_def)
    then show ?thesis
      by (rule same_parser_vars_trans [OF frame_next_LastChar])
  next
    case False
    then have "gettok_comment g = ?g1"
      by (auto simp add: gettok_comment.simps [of g] Let_def)
    then show ?thesis by simp
  qed
qed

lemma frame_gettok: "same_parser_vars g0 (snd (gettok strtod g0))"
proof (induction strtod g0 rule: gettok.induct)
  case (1 strtod g0)
  let ?g = "gettok_space g0"
  note sp = frame_gettok_space [of g0]
  consider (alpha) "isalpha (LastChar ?g)"
    | (num) "\<not> isalpha (LastChar ?g)" "isdigit (LastChar ?g) \<or> LastChar ?g = 46"
    | (hash) "\<not> isalpha (LastChar ?g)" "\<not> (isdigit (LastChar ?g) \<or> LastChar ?g = 46)"
        "LastChar ?g = 35"
    | (other) "\<not> isalpha (LastChar ?g)" "\<not> (isdigit (LastChar ?g) \<or> LastChar ?g = 46)"
        "LastChar ?g \<noteq> 35"
    by blast
  then show ?case
  proof cases
    case alpha
    have "same_parser_vars ?g (gettok_ident (?g\<lparr>IdentifierStr := [char_of (LastChar ?g)]\<rparr>))"
      using frame_gettok_ident [of "?g\<lparr>IdentifierStr := [char_of (LastChar ?g)]\<rparr>"] by simp
    then have "same_parser_vars ?g (snd (gettok strtod g0))"
      by (simp add: gettok_alpha [OF alpha] Let_def)
    with sp show ?thesis by (rule same_parser_vars_trans)
  next
    case num
    have "same_parser_vars ?g (snd (gettok strtod g0))"
      using frame_gettok_number [of ?g "[]"]
      by (simp add: gettok_num [OF num(2)] case_prod_beta)
    with sp show ?thesis by (rule same_parser_vars_trans)
  next
    case hash
    let ?g1 = "gettok_comment ?g"
    have c: "same_parser_vars ?g ?g1"
      by (rule frame_gettok_comment)
    have "same_parser_vars ?g1 (snd (gettok strtod g0))"
    proof (cases "LastChar ?g1 = EOF")
      case True
      then show ?thesis
        by (simp add: gettok_hash [OF hash(3)] Let_def)
    next
      case False
      with 1 [OF refl hash(1,2) refl] hash(3) show ?thesis
        by (simp add: gettok_hash [OF hash(3)] Let_def)
    qed
    with sp c show ?thesis by (blast intro: same_parser_vars_trans)
  next
    case other
    then have "same_parser_vars ?g (snd (gettok strtod g0))"
      by (simp add: gettok_other Let_def)
    with sp show ?thesis by (rule same_parser_vars_trans)
  qed
qed

lemma BinopPrecedence_getNextToken [simp]:
  "BinopPrecedence (snd (getNextToken strtod g)) = BinopPrecedence g"
  using frame_gettok [of g strtod]
  by (simp add: getNextToken_def same_parser_vars_def case_prod_beta)

lemma stderr_getNextToken [simp]:
  "stderr (snd (getNextToken strtod g)) = stderr g"
  using frame_gettok [of g strtod]
  by (simp add: getNextToken_def same_parser_vars_def case_prod_beta)

lemma CurTok_getNextToken [simp]:
  "CurTok (snd (getNextToken strtod g)) = fst (getNextToken strtod g)"
  by (simp add: getNextToken_def case_prod_beta)

subsection \<open>Characters, the table after the setup, the number loop\<close>

lemma BinopPrecedence_main_setup:
  "BinopPrecedence (main_setup strtod g) =
     (BinopPrecedence g)(CHR ''<'' \<mapsto> 10, CHR ''+'' \<mapsto> 20, CHR ''-'' \<mapsto> 30, CHR ''*'' \<mapsto> 40)"
  by (simp add: main_setup_def Let_def)

lemma char_of_eq_iff:
  assumes "0 \<le> t" "t \<le> 127"
  shows "char_of (t::int) = c \<longleftrightarrow> t = of_char c"
proof -
  have "char_of t = c \<longleftrightarrow> (of_char (char_of t) :: int) = of_char c"
    by (simp only: of_char_eq_iff)
  also have "(of_char (char_of t) :: int) = t mod 256"
    by (rule of_char_of)
  also have "t mod 256 = t"
    using assms by simp
  finally show ?thesis .
qed

lemma next_LastChar_Nil:
  "stdin g = [] \<Longrightarrow> next_LastChar g = g\<lparr>LastChar := EOF\<rparr>"
  by (simp add: next_LastChar_def getchar_def)

lemma next_LastChar_Cons:
  "stdin g = c # cs \<Longrightarrow> next_LastChar g = g\<lparr>stdin := cs, LastChar := of_char c\<rparr>"
  by (simp add: next_LastChar_def getchar_def)

lemma gettok_number_run:
  "gettok_number s g =
     (s @ char_of (LastChar g) # takeWhile number_char (stdin g),
      g\<lparr>stdin := tl (dropWhile number_char (stdin g)),
        LastChar := (case dropWhile number_char (stdin g) of
                       [] \<Rightarrow> EOF
                     | c # cs \<Rightarrow> of_char c)\<rparr>)"
proof (induction "stdin g" arbitrary: s g)
  case Nil
  then have n: "next_LastChar g = g\<lparr>LastChar := EOF\<rparr>"
    by (simp add: next_LastChar_Nil)
  have "gettok_number s g = (s @ [char_of (LastChar g)], g\<lparr>LastChar := EOF\<rparr>)"
    by (simp add: gettok_number.simps [of s g] n Let_def isdigit_def EOF_def)
  moreover have "g\<lparr>stdin := [], LastChar := EOF\<rparr> = g\<lparr>LastChar := EOF\<rparr>"
    using Nil by (cases g) simp
  ultimately show ?case
    using Nil [symmetric] by simp
next
  case (Cons c cs)
  let ?g1 = "g\<lparr>stdin := cs, LastChar := of_char c\<rparr>"
  from Cons(2) have n: "next_LastChar g = ?g1"
    by (simp add: next_LastChar_Cons)
  show ?case
  proof (cases "number_char c")
    case True
    then have "gettok_number s g = gettok_number (s @ [char_of (LastChar g)]) ?g1"
      by (simp add: gettok_number.simps [of s g] n Let_def number_char_def)
    also have "\<dots> = (s @ char_of (LastChar g) # c # takeWhile number_char cs,
        ?g1\<lparr>stdin := tl (dropWhile number_char cs),
            LastChar := (case dropWhile number_char cs of [] \<Rightarrow> EOF | c # cs \<Rightarrow> of_char c)\<rparr>)"
      using Cons(1) [of ?g1 "s @ [char_of (LastChar g)]"] by simp
    finally show ?thesis
      using True Cons(2) [symmetric] by simp
  next
    case False
    then have "gettok_number s g = (s @ [char_of (LastChar g)], ?g1)"
      by (simp add: gettok_number.simps [of s g] n Let_def number_char_def)
    with False Cons(2) [symmetric] show ?thesis by simp
  qed
qed

lemma gettok_space_id: "\<not> isspace (LastChar g) \<Longrightarrow> gettok_space g = g"
  by (simp add: gettok_space.simps [of g])

subsection \<open>Evaluation on a concrete input\<close>

text \<open>
  The equations that run the lexer and the parser on a given input. They are used only
  where every test they contain is decided by the input.
\<close>

lemmas lex_eval = gettok.simps gettok_space.simps gettok_ident.simps gettok_number.simps
  gettok_comment.simps next_LastChar_def getchar_def getNextToken_def
  isspace_def isalpha_def isdigit_def isalnum_def isascii_def EOF_def
  tok_eof_def tok_def_def tok_extern_def tok_identifier_def tok_number_def Let_def
  char_of_def

lemmas parse_eval = ParsePrimary.simps ParseParenExpr.simps ParseIdentifierExpr.simps
  ParseIdentifierExpr_args.simps ParseExpression.simps ParseBinOpRHS.simps
  ParseNumberExpr_def GetTokPrecedence_def map_subscript_def LogError_def
  LogErrorProto_def ParsePrototype_args.simps ParsePrototype_def ParseDefinition_def
  ParseExtern_def ParseTopLevelExpr_def main_setup_def initial_globals_def

subsection \<open>Operator precedence\<close>

text \<open>Steps of the loop of \<open>ParseBinOpRHS\<close>.\<close>

lemma GetTokPrecedence_idem:
  "GetTokPrecedence (snd (GetTokPrecedence g)) = GetTokPrecedence g"
  by (auto simp add: GetTokPrecedence_def map_subscript_def Let_def split: option.splits)

lemma ParseBinOpRHS_step:
  assumes "GetTokPrecedence g = (p, g1)" and "ExprPrec \<le> p"
    and "ParsePrimary strtod (snd (getNextToken strtod g1)) = (Some RHS, g3)"
    and "GetTokPrecedence g3 = (q, g4)" and "q \<le> p"
  shows "ParseBinOpRHS strtod ExprPrec LHS g =
           ParseBinOpRHS strtod ExprPrec (BinaryExprAST (char_of (CurTok g1)) LHS RHS) g4"
  using assms by (simp add: ParseBinOpRHS.simps [of strtod ExprPrec LHS g] Let_def)

lemma GetTokPrecedence_again:
  "GetTokPrecedence g = (p, g1) \<Longrightarrow> GetTokPrecedence g1 = (p, g1)"
  by (metis GetTokPrecedence_idem snd_conv)

lemma ParseBinOpRHS_return:
  assumes "GetTokPrecedence g = (p, g1)" and "p < ExprPrec"
  shows "ParseBinOpRHS strtod ExprPrec LHS g = (Some LHS, g1)"
  using assms by (simp add: ParseBinOpRHS.simps [of strtod ExprPrec LHS g])

lemma ParseBinOpRHS_nested:
  assumes "GetTokPrecedence g = (p, g1)" and "ExprPrec \<le> p"
    and "ParsePrimary strtod (snd (getNextToken strtod g1)) = (Some RHS, g3)"
    and "GetTokPrecedence g3 = (q, g4)" and "p < q"
    and "ParseBinOpRHS strtod (p + 1) RHS g4 = (Some RHS1, g5)"
  shows "ParseBinOpRHS strtod ExprPrec LHS g =
           ParseBinOpRHS strtod ExprPrec (BinaryExprAST (char_of (CurTok g1)) LHS RHS1) g5"
  using assms by (simp add: ParseBinOpRHS.simps [of strtod ExprPrec LHS g] Let_def)

text \<open>
  What the loop returns: the expression it was given lies on the left spine of the
  result, and the token that follows the result binds less tightly than the loop asked
  for.
\<close>

lemma left_spine_self: "e \<in> set (left_spine e)"
  by (cases e) simp_all

lemma left_spine_child:
  "BinaryExprAST c LHS R \<in> set (left_spine T) \<Longrightarrow> LHS \<in> set (left_spine T)"
  by (induction T) (auto simp: left_spine_self)

lemma ParseBinOpRHS_result:
  "ParseBinOpRHS strtod ExprPrec LHS g = (Some T, g') \<Longrightarrow>
   LHS \<in> set (left_spine T) \<and> fst (GetTokPrecedence g') < ExprPrec"
proof -
  let ?P = "\<lambda>(strtod :: string \<Rightarrow> 'a) ExprPrec LHS g.
              \<forall>T g'. ParseBinOpRHS strtod ExprPrec LHS g = (Some T, g') \<longrightarrow>
                LHS \<in> set (left_spine T) \<and> fst (GetTokPrecedence g') < ExprPrec"
  have "?P strtod ExprPrec LHS g"
  proof (rule ParsePrimary_ParseParenExpr_ParseIdentifierExpr_ParseIdentifierExpr_args_ParseExpression_ParseBinOpRHS.induct(6)
           [where ?P1.0 = "\<lambda>_ _. True" and ?P2.0 = "\<lambda>_ _. True"
              and ?P3.0 = "\<lambda>_ _. True" and ?P4.0 = "\<lambda>_ _ _. True"
              and ?P5.0 = "\<lambda>_ _. True" and ?P6.0 = ?P], goal_cases)
    case (6 strtod ExprPrec LHS g)
    show ?case
    proof (intro allI impI)
      fix T g'
      assume r: "ParseBinOpRHS strtod ExprPrec LHS g = (Some T, g')"
      obtain p g1 where p: "GetTokPrecedence g = (p, g1)" by (cases "GetTokPrecedence g")
      show "LHS \<in> set (left_spine T) \<and> fst (GetTokPrecedence g') < ExprPrec"
      proof (cases "p < ExprPrec")
        case True
        with r p have "T = LHS" "g' = g1"
          by (simp_all add: ParseBinOpRHS.simps [of strtod ExprPrec LHS g])
        with True GetTokPrecedence_again [OF p] show ?thesis
          by (simp add: left_spine_self)
      next
        case False
        obtain r3 g3 where pp: "ParsePrimary strtod (snd (getNextToken strtod g1)) = (r3, g3)"
          by (cases "ParsePrimary strtod (snd (getNextToken strtod g1))")
        from r p False pp obtain RHS where s3: "r3 = Some RHS"
          by (cases r3) (simp_all add: ParseBinOpRHS.simps [of strtod ExprPrec LHS g] Let_def)
        obtain q g4 where q: "GetTokPrecedence g3 = (q, g4)" by (cases "GetTokPrecedence g3")
        obtain r5 g5 where n: "(if p < q then ParseBinOpRHS strtod (p + 1) RHS g4
                                else (Some RHS, g4)) = (r5, g5)"
          by (cases "if p < q then ParseBinOpRHS strtod (p + 1) RHS g4 else (Some RHS, g4)")
        from r p False pp s3 q n obtain RHS1 where s5: "r5 = Some RHS1"
          by (cases r5) (simp_all add: ParseBinOpRHS.simps [of strtod ExprPrec LHS g] Let_def)
        from r p False pp s3 q n s5
        have c: "ParseBinOpRHS strtod ExprPrec (BinaryExprAST (char_of (CurTok g1)) LHS RHS1) g5
                 = (Some T, g')"
          by (simp add: ParseBinOpRHS.simps [of strtod ExprPrec LHS g] Let_def)
        have "BinaryExprAST (char_of (CurTok g1)) LHS RHS1 \<in> set (left_spine T) \<and>
              fst (GetTokPrecedence g') < ExprPrec"
          using 6(3) [OF p [symmetric] False refl refl pp [symmetric] s3 q [symmetric]
                         n [unfolded s5, symmetric] refl] c by simp
        then show ?thesis
          by (auto dest: left_spine_child)
      qed
    qed
  qed simp_all
  then show "ParseBinOpRHS strtod ExprPrec LHS g = (Some T, g') \<Longrightarrow>
   LHS \<in> set (left_spine T) \<and> fst (GetTokPrecedence g') < ExprPrec" by simp
qed

lemma ParseBinOpRHS_first_node:
  assumes p: "GetTokPrecedence g = (p, g1)" and le: "ExprPrec \<le> p"
    and r: "ParseBinOpRHS strtod ExprPrec LHS g = (Some T, g')"
  shows "\<exists>R. BinaryExprAST (char_of (CurTok g1)) LHS R \<in> set (left_spine T)"
proof -
  from le have False: "\<not> p < ExprPrec" by simp
  obtain r3 g3 where pp: "ParsePrimary strtod (snd (getNextToken strtod g1)) = (r3, g3)"
    by (cases "ParsePrimary strtod (snd (getNextToken strtod g1))")
  from r p False pp obtain RHS where s3: "r3 = Some RHS"
    by (cases r3) (simp_all add: ParseBinOpRHS.simps [of strtod ExprPrec LHS g] Let_def)
  obtain q g4 where q: "GetTokPrecedence g3 = (q, g4)" by (cases "GetTokPrecedence g3")
  obtain r5 g5 where n: "(if p < q then ParseBinOpRHS strtod (p + 1) RHS g4
                          else (Some RHS, g4)) = (r5, g5)"
    by (cases "if p < q then ParseBinOpRHS strtod (p + 1) RHS g4 else (Some RHS, g4)")
  from r p False pp s3 q n obtain RHS1 where s5: "r5 = Some RHS1"
    by (cases r5) (simp_all add: ParseBinOpRHS.simps [of strtod ExprPrec LHS g] Let_def)
  from r p False pp s3 q n s5
  have "ParseBinOpRHS strtod ExprPrec (BinaryExprAST (char_of (CurTok g1)) LHS RHS1) g5
          = (Some T, g')"
    by (simp add: ParseBinOpRHS.simps [of strtod ExprPrec LHS g] Let_def)
  then have "BinaryExprAST (char_of (CurTok g1)) LHS RHS1 \<in> set (left_spine T)"
    by (rule ParseBinOpRHS_result [THEN conjunct1])
  then show ?thesis ..
qed

lemma ParseBinOpRHS_nested_None:
  assumes "GetTokPrecedence g = (p, g1)" and "ExprPrec \<le> p"
    and "ParsePrimary strtod (snd (getNextToken strtod g1)) = (Some RHS, g3)"
    and "GetTokPrecedence g3 = (q, g4)" and "p < q"
    and "ParseBinOpRHS strtod (p + 1) RHS g4 = (None, g5)"
  shows "ParseBinOpRHS strtod ExprPrec LHS g = (None, g5)"
  using assms by (simp add: ParseBinOpRHS.simps [of strtod ExprPrec LHS g] Let_def)

text \<open>
  C1. On the input \<open>1+2*3\<close>, \<open>ParseExpression\<close> returns the sum of 1 and the product
  of 2 and 3; on \<open>1*2+3\<close> it returns the sum of the product of 1 and 2, and 3; on
  \<open>1+2*3-4\<close>, where the subtraction binds tighter than the addition, the right operand
  of the addition is the whole of \<open>2*3-4\<close>. The value of a literal is what \<open>strtod\<close>
  returns for its text. In general, let the loop of \<open>ParseBinOpRHS\<close> stand before an
  operator that it accepts, of precedence \<open>p\<close>, followed by a primary expression
  \<open>RHS\<close> and a token of precedence \<open>q\<close>; nothing is assumed of what comes after.
  If \<open>q\<close> is higher than \<open>p\<close>, the loop calls itself with \<open>p + 1\<close> on \<open>RHS\<close>. When
  that call fails, so does the loop. Otherwise its result \<open>RHS1\<close> is the right operand
  of the operator, the token after \<open>RHS1\<close> binds no tighter than the operator, and the
  node of the second operator, with \<open>RHS\<close> as its left operand, is on the left spine of
  \<open>RHS1\<close>: in every tree that the loop returns the second operator is nested below the
  first. If \<open>q\<close> is lower than \<open>p\<close>, the node of the first operator has \<open>RHS\<close> as its
  right operand and the loop goes on with that node: it is on the left spine of every
  tree that the loop returns, and when the loop accepts the second operator, it is the
  left child of the node of the second.
\<close>

theorem ParseExpression_precedence:
  "(fst (ParseExpression strtod (main_setup strtod (initial_globals ''1+2*3''))) =
      Some (BinaryExprAST CHR ''+'' (NumberExprAST (strtod ''1''))
             (BinaryExprAST CHR ''*'' (NumberExprAST (strtod ''2''))
                (NumberExprAST (strtod ''3'')))) \<and>
    fst (ParseExpression strtod (main_setup strtod (initial_globals ''1*2+3''))) =
      Some (BinaryExprAST CHR ''+''
             (BinaryExprAST CHR ''*'' (NumberExprAST (strtod ''1''))
                (NumberExprAST (strtod ''2'')))
             (NumberExprAST (strtod ''3''))) \<and>
    fst (ParseExpression strtod (main_setup strtod (initial_globals ''1+2*3-4''))) =
      Some (BinaryExprAST CHR ''+'' (NumberExprAST (strtod ''1''))
             (BinaryExprAST CHR ''-''
                (BinaryExprAST CHR ''*'' (NumberExprAST (strtod ''2''))
                   (NumberExprAST (strtod ''3'')))
                (NumberExprAST (strtod ''4''))))) \<and>
   (\<forall>ExprPrec LHS g p g1 RHS g3 q g4.
      GetTokPrecedence g = (p, g1) \<and> ExprPrec \<le> p \<and>
      ParsePrimary strtod (snd (getNextToken strtod g1)) = (Some RHS, g3) \<and>
      GetTokPrecedence g3 = (q, g4) \<longrightarrow>
      (p < q \<longrightarrow>
         (\<forall>g5. ParseBinOpRHS strtod (p + 1) RHS g4 = (None, g5) \<longrightarrow>
            ParseBinOpRHS strtod ExprPrec LHS g = (None, g5)) \<and>
         (\<forall>RHS1 g5. ParseBinOpRHS strtod (p + 1) RHS g4 = (Some RHS1, g5) \<longrightarrow>
            ParseBinOpRHS strtod ExprPrec LHS g =
              ParseBinOpRHS strtod ExprPrec
                (BinaryExprAST (char_of (CurTok g1)) LHS RHS1) g5 \<and>
            fst (GetTokPrecedence g5) \<le> p \<and>
            (\<exists>R. BinaryExprAST (char_of (CurTok g4)) RHS R \<in> set (left_spine RHS1))) \<and>
         (\<forall>T g'. ParseBinOpRHS strtod ExprPrec LHS g = (Some T, g') \<longrightarrow>
            (\<exists>RHS1 R. BinaryExprAST (char_of (CurTok g1)) LHS RHS1 \<in> set (left_spine T) \<and>
               BinaryExprAST (char_of (CurTok g4)) RHS R \<in> set (left_spine RHS1)))) \<and>
      (q < p \<longrightarrow>
         ParseBinOpRHS strtod ExprPrec LHS g =
           ParseBinOpRHS strtod ExprPrec (BinaryExprAST (char_of (CurTok g1)) LHS RHS) g4 \<and>
         (\<forall>T g'. ParseBinOpRHS strtod ExprPrec LHS g = (Some T, g') \<longrightarrow>
            BinaryExprAST (char_of (CurTok g1)) LHS RHS \<in> set (left_spine T) \<and>
            (ExprPrec \<le> q \<longrightarrow>
               (\<exists>R. BinaryExprAST (char_of (CurTok g4))
                       (BinaryExprAST (char_of (CurTok g1)) LHS RHS) R
                     \<in> set (left_spine T))))))"
proof (intro conjI allI impI; (elim conjE)?)
  show "fst (ParseExpression strtod (main_setup strtod (initial_globals ''1+2*3''))) =
      Some (BinaryExprAST CHR ''+'' (NumberExprAST (strtod ''1''))
             (BinaryExprAST CHR ''*'' (NumberExprAST (strtod ''2''))
                (NumberExprAST (strtod ''3''))))"
    by (simp add: lex_eval parse_eval)
  show "fst (ParseExpression strtod (main_setup strtod (initial_globals ''1*2+3''))) =
      Some (BinaryExprAST CHR ''+''
             (BinaryExprAST CHR ''*'' (NumberExprAST (strtod ''1''))
                (NumberExprAST (strtod ''2'')))
             (NumberExprAST (strtod ''3'')))"
    by (simp add: lex_eval parse_eval)
  show "fst (ParseExpression strtod (main_setup strtod (initial_globals ''1+2*3-4''))) =
      Some (BinaryExprAST CHR ''+'' (NumberExprAST (strtod ''1''))
             (BinaryExprAST CHR ''-''
                (BinaryExprAST CHR ''*'' (NumberExprAST (strtod ''2''))
                   (NumberExprAST (strtod ''3'')))
                (NumberExprAST (strtod ''4''))))"
    by (simp add: lex_eval parse_eval)
next
  fix ExprPrec LHS g p g1 RHS g3 q g4 g5
  assume h: "GetTokPrecedence g = (p, g1)" "ExprPrec \<le> p"
      "ParsePrimary strtod (snd (getNextToken strtod g1)) = (Some RHS, g3)"
      "GetTokPrecedence g3 = (q, g4)"
    and a: "p < q" and n: "ParseBinOpRHS strtod (p + 1) RHS g4 = (None, g5)"
  show "ParseBinOpRHS strtod ExprPrec LHS g = (None, g5)"
    by (rule ParseBinOpRHS_nested_None [OF h a n])
next
  fix ExprPrec LHS g p g1 RHS g3 q g4 RHS1 g5
  assume h: "GetTokPrecedence g = (p, g1)" "ExprPrec \<le> p"
      "ParsePrimary strtod (snd (getNextToken strtod g1)) = (Some RHS, g3)"
      "GetTokPrecedence g3 = (q, g4)"
    and a: "p < q" and n: "ParseBinOpRHS strtod (p + 1) RHS g4 = (Some RHS1, g5)"
  show "ParseBinOpRHS strtod ExprPrec LHS g =
          ParseBinOpRHS strtod ExprPrec (BinaryExprAST (char_of (CurTok g1)) LHS RHS1) g5"
    by (rule ParseBinOpRHS_nested [OF h a n])
  from ParseBinOpRHS_result [OF n] show "fst (GetTokPrecedence g5) \<le> p"
    by simp
  from a have "p + 1 \<le> q" by simp
  with GetTokPrecedence_again [OF h(4)]
  show "\<exists>R. BinaryExprAST (char_of (CurTok g4)) RHS R \<in> set (left_spine RHS1)"
    using n by (rule ParseBinOpRHS_first_node)
next
  fix ExprPrec LHS g p g1 RHS g3 q g4 T g'
  assume h: "GetTokPrecedence g = (p, g1)" "ExprPrec \<le> p"
      "ParsePrimary strtod (snd (getNextToken strtod g1)) = (Some RHS, g3)"
      "GetTokPrecedence g3 = (q, g4)"
    and a: "p < q" and r: "ParseBinOpRHS strtod ExprPrec LHS g = (Some T, g')"
  obtain r5 g5 where n: "ParseBinOpRHS strtod (p + 1) RHS g4 = (r5, g5)"
    by (cases "ParseBinOpRHS strtod (p + 1) RHS g4")
  have "r5 \<noteq> None"
  proof
    assume "r5 = None"
    with n have "ParseBinOpRHS strtod ExprPrec LHS g = (None, g5)"
      by (intro ParseBinOpRHS_nested_None [OF h a]) simp
    with r show False by simp
  qed
  then obtain RHS1 where s: "r5 = Some RHS1"
    by (cases r5) simp_all
  note n1 = n [unfolded s]
  from r ParseBinOpRHS_nested [OF h a n1]
  have "ParseBinOpRHS strtod ExprPrec (BinaryExprAST (char_of (CurTok g1)) LHS RHS1) g5 =
          (Some T, g')"
    by simp
  then have 1: "BinaryExprAST (char_of (CurTok g1)) LHS RHS1 \<in> set (left_spine T)"
    by (rule ParseBinOpRHS_result [THEN conjunct1])
  from a have "p + 1 \<le> q" by simp
  with GetTokPrecedence_again [OF h(4)]
  have "\<exists>R. BinaryExprAST (char_of (CurTok g4)) RHS R \<in> set (left_spine RHS1)"
    using n1 by (rule ParseBinOpRHS_first_node)
  with 1 show "\<exists>RHS1 R. BinaryExprAST (char_of (CurTok g1)) LHS RHS1 \<in> set (left_spine T) \<and>
               BinaryExprAST (char_of (CurTok g4)) RHS R \<in> set (left_spine RHS1)"
    by blast
next
  fix ExprPrec LHS g p g1 RHS g3 q g4
  assume h: "GetTokPrecedence g = (p, g1)" "ExprPrec \<le> p"
      "ParsePrimary strtod (snd (getNextToken strtod g1)) = (Some RHS, g3)"
      "GetTokPrecedence g3 = (q, g4)"
    and a: "q < p"
  from a have "q \<le> p" by simp
  with h show "ParseBinOpRHS strtod ExprPrec LHS g =
           ParseBinOpRHS strtod ExprPrec (BinaryExprAST (char_of (CurTok g1)) LHS RHS) g4"
    by (rule ParseBinOpRHS_step)
next
  fix ExprPrec LHS g p g1 RHS g3 q g4 T g'
  assume h: "GetTokPrecedence g = (p, g1)" "ExprPrec \<le> p"
      "ParsePrimary strtod (snd (getNextToken strtod g1)) = (Some RHS, g3)"
      "GetTokPrecedence g3 = (q, g4)"
    and a: "q < p"
    and r: "ParseBinOpRHS strtod ExprPrec LHS g = (Some T, g')"
  from a have "q \<le> p" by simp
  with h have "ParseBinOpRHS strtod ExprPrec LHS g =
           ParseBinOpRHS strtod ExprPrec (BinaryExprAST (char_of (CurTok g1)) LHS RHS) g4"
    by (rule ParseBinOpRHS_step)
  with r have c: "ParseBinOpRHS strtod ExprPrec
                    (BinaryExprAST (char_of (CurTok g1)) LHS RHS) g4 = (Some T, g')"
    by simp
  then show "BinaryExprAST (char_of (CurTok g1)) LHS RHS \<in> set (left_spine T)"
    by (rule ParseBinOpRHS_result [THEN conjunct1])
  {
    assume b: "ExprPrec \<le> q"
    from GetTokPrecedence_again [OF h(4)] b c
    show "\<exists>R. BinaryExprAST (char_of (CurTok g4))
                 (BinaryExprAST (char_of (CurTok g1)) LHS RHS) R \<in> set (left_spine T)"
      by (rule ParseBinOpRHS_first_node)
  }
qed

text \<open>
  The general part of C1 on the inputs \<open>1+2*3-4\<close>, \<open>1+2*\<close> and \<open>1*2+3\<close>, from
  the state in which the first number has been parsed.
\<close>

theorem ParseExpression_precedence_witness:
  "(ParseBinOpRHS strtod_digits 0 (NumberExprAST 1)
      (snd (ParsePrimary strtod_digits
              (main_setup strtod_digits (initial_globals ''1+2*3-4'')))) =
    ParseBinOpRHS strtod_digits 0
      (BinaryExprAST CHR ''+'' (NumberExprAST 1)
         (BinaryExprAST CHR ''-''
            (BinaryExprAST CHR ''*'' (NumberExprAST 2) (NumberExprAST 3))
            (NumberExprAST 4)))
      (snd (ParseExpression strtod_digits
              (main_setup strtod_digits (initial_globals ''1+2*3-4'')))) \<and>
    (\<exists>RHS1 R.
       BinaryExprAST CHR ''+'' (NumberExprAST 1) RHS1
         \<in> set (left_spine
                  (the (fst (ParseExpression strtod_digits
                               (main_setup strtod_digits (initial_globals ''1+2*3-4'')))))) \<and>
       BinaryExprAST CHR ''*'' (NumberExprAST 2) R \<in> set (left_spine RHS1))) \<and>
   fst (ParseBinOpRHS strtod_digits 0 (NumberExprAST 1)
          (snd (ParsePrimary strtod_digits
                  (main_setup strtod_digits (initial_globals ''1+2*''))))) = None \<and>
   (ParseBinOpRHS strtod_digits 0 (NumberExprAST 1)
      (snd (ParsePrimary strtod_digits
              (main_setup strtod_digits (initial_globals ''1*2+3'')))) =
    ParseBinOpRHS strtod_digits 0
      (BinaryExprAST CHR ''*'' (NumberExprAST 1) (NumberExprAST 2))
      (snd (ParsePrimary strtod_digits
              (snd (getNextToken strtod_digits
                      (snd (ParsePrimary strtod_digits
                              (main_setup strtod_digits (initial_globals ''1*2+3'')))))))) \<and>
    (\<exists>R. BinaryExprAST CHR ''+''
            (BinaryExprAST CHR ''*'' (NumberExprAST 1) (NumberExprAST 2)) R
         \<in> set (left_spine
                  (the (fst (ParseExpression strtod_digits
                               (main_setup strtod_digits (initial_globals ''1*2+3''))))))))"
proof -
  let ?sd = strtod_digits
  note G = ParseExpression_precedence [of ?sd, THEN conjunct2, rule_format]
  note H = G [THEN conjunct1, rule_format]
  note H1 = H [THEN conjunct1, rule_format]
    and H2 = H [THEN conjunct2, THEN conjunct1, rule_format]
    and H3 = H [THEN conjunct2, THEN conjunct2, rule_format]
  note L = G [THEN conjunct2, rule_format]
  note L1 = L [THEN conjunct1]
    and L2 = L [THEN conjunct2, rule_format, THEN conjunct2, rule_format]
  have a: "ParseBinOpRHS ?sd 0 (NumberExprAST 1)
      (snd (ParsePrimary ?sd (main_setup ?sd (initial_globals ''1+2*3-4'')))) =
    ParseBinOpRHS ?sd 0
      (BinaryExprAST CHR ''+'' (NumberExprAST 1)
         (BinaryExprAST CHR ''-''
            (BinaryExprAST CHR ''*'' (NumberExprAST 2) (NumberExprAST 3))
            (NumberExprAST 4)))
      (snd (ParseExpression ?sd (main_setup ?sd (initial_globals ''1+2*3-4'')))) \<and>
    (\<exists>RHS1 R.
       BinaryExprAST CHR ''+'' (NumberExprAST 1) RHS1
         \<in> set (left_spine
                  (the (fst (ParseExpression ?sd
                               (main_setup ?sd (initial_globals ''1+2*3-4'')))))) \<and>
       BinaryExprAST CHR ''*'' (NumberExprAST 2) R \<in> set (left_spine RHS1))"
  proof -
    let ?m = "main_setup ?sd (initial_globals ''1+2*3-4'')"
    let ?g = "snd (ParsePrimary ?sd ?m)"
    let ?g1 = "snd (GetTokPrecedence ?g)"
    let ?r3 = "ParsePrimary ?sd (snd (getNextToken ?sd ?g1))"
    let ?g4 = "snd (GetTokPrecedence (snd ?r3))"
    let ?n = "ParseBinOpRHS ?sd (20 + 1) (NumberExprAST 2) ?g4"
    let ?R1 = "BinaryExprAST CHR ''-''
                 (BinaryExprAST CHR ''*'' (NumberExprAST (2::int)) (NumberExprAST 3))
                 (NumberExprAST 4)"
    let ?r = "ParseBinOpRHS ?sd 0 (NumberExprAST 1) ?g"
    have "fst (GetTokPrecedence ?g) = 20"
      by (simp add: lex_eval parse_eval)
    then have h1: "GetTokPrecedence ?g = (20, ?g1)"
      by (metis prod.collapse)
    have "fst ?r3 = Some (NumberExprAST 2)"
      by (simp add: lex_eval parse_eval strtod_digits_def)
    then have h3: "?r3 = (Some (NumberExprAST 2), snd ?r3)"
      by (metis prod.collapse)
    have "fst (GetTokPrecedence (snd ?r3)) = 40"
      by (simp add: lex_eval parse_eval)
    then have h4: "GetTokPrecedence (snd ?r3) = (40, ?g4)"
      by (metis prod.collapse)
    have "fst ?n = Some ?R1"
      by (simp add: lex_eval parse_eval strtod_digits_def)
    then have n: "?n = (Some ?R1, snd ?n)"
      by (metis prod.collapse)
    have ops: "char_of (CurTok ?g1) = CHR ''+''" "char_of (CurTok ?g4) = CHR ''*''"
      by (simp_all add: lex_eval parse_eval)
    have e: "ParseExpression ?sd ?m = ?r"
      by (simp add: lex_eval parse_eval strtod_digits_def)
    have s: "snd ?r = snd ?n"
      by (simp add: lex_eval parse_eval strtod_digits_def)
    have "fst ?r \<noteq> None"
      by (simp add: lex_eval parse_eval strtod_digits_def)
    then have r: "?r = (Some (the (fst ?r)), snd ?r)"
      by (metis option.collapse prod.collapse)
    have "?r = ParseBinOpRHS ?sd 0
                 (BinaryExprAST (char_of (CurTok ?g1)) (NumberExprAST 1) ?R1) (snd ?n) \<and>
          fst (GetTokPrecedence (snd ?n)) \<le> 20 \<and>
          (\<exists>R. BinaryExprAST (char_of (CurTok ?g4)) (NumberExprAST 2) R \<in> set (left_spine ?R1))"
      by (rule H2) (intro conjI, rule h1, simp, rule h3, rule h4, simp, rule n)
    then have 1: "?r = ParseBinOpRHS ?sd 0
                 (BinaryExprAST CHR ''+'' (NumberExprAST 1) ?R1) (snd ?r)"
      unfolding ops s by (rule conjunct1)
    have "\<exists>RHS1 R. BinaryExprAST (char_of (CurTok ?g1)) (NumberExprAST 1) RHS1
                       \<in> set (left_spine (the (fst ?r))) \<and>
                    BinaryExprAST (char_of (CurTok ?g4)) (NumberExprAST 2) R
                       \<in> set (left_spine RHS1)"
      by (rule H3 [where ExprPrec = 0 and p = 20 and q = 40])
         (intro conjI, rule h1, simp, rule h3, rule h4, simp, rule r)
    then have 2: "\<exists>RHS1 R. BinaryExprAST CHR ''+'' (NumberExprAST 1) RHS1
                       \<in> set (left_spine (the (fst ?r))) \<and>
                    BinaryExprAST CHR ''*'' (NumberExprAST 2) R \<in> set (left_spine RHS1)"
      unfolding ops .
    from 1 2 show ?thesis
      unfolding e by (rule conjI)
  qed
  have c: "fst (ParseBinOpRHS ?sd 0 (NumberExprAST 1)
          (snd (ParsePrimary ?sd (main_setup ?sd (initial_globals ''1+2*''))))) = None"
  proof -
    let ?g = "snd (ParsePrimary ?sd (main_setup ?sd (initial_globals ''1+2*'')))"
    let ?g1 = "snd (GetTokPrecedence ?g)"
    let ?r3 = "ParsePrimary ?sd (snd (getNextToken ?sd ?g1))"
    let ?g4 = "snd (GetTokPrecedence (snd ?r3))"
    let ?n = "ParseBinOpRHS ?sd (20 + 1) (NumberExprAST 2) ?g4"
    have "fst (GetTokPrecedence ?g) = 20"
      by (simp add: lex_eval parse_eval)
    then have h1: "GetTokPrecedence ?g = (20, ?g1)"
      by (metis prod.collapse)
    have "fst ?r3 = Some (NumberExprAST 2)"
      by (simp add: lex_eval parse_eval strtod_digits_def)
    then have h3: "?r3 = (Some (NumberExprAST 2), snd ?r3)"
      by (metis prod.collapse)
    have "fst (GetTokPrecedence (snd ?r3)) = 40"
      by (simp add: lex_eval parse_eval)
    then have h4: "GetTokPrecedence (snd ?r3) = (40, ?g4)"
      by (metis prod.collapse)
    have "fst ?n = None"
      by (simp add: lex_eval parse_eval strtod_digits_def)
    then have n: "?n = (None, snd ?n)"
      by (metis prod.collapse)
    have "ParseBinOpRHS ?sd 0 (NumberExprAST 1) ?g = (None, snd ?n)"
      by (rule H1) (intro conjI, rule h1, simp, rule h3, rule h4, simp, rule n)
    then show ?thesis by simp
  qed
  have b: "ParseBinOpRHS ?sd 0 (NumberExprAST 1)
      (snd (ParsePrimary ?sd (main_setup ?sd (initial_globals ''1*2+3'')))) =
    ParseBinOpRHS ?sd 0
      (BinaryExprAST CHR ''*'' (NumberExprAST 1) (NumberExprAST 2))
      (snd (ParsePrimary ?sd
              (snd (getNextToken ?sd
                      (snd (ParsePrimary ?sd
                              (main_setup ?sd (initial_globals ''1*2+3''))))))))  \<and>
    (\<exists>R. BinaryExprAST CHR ''+''
            (BinaryExprAST CHR ''*'' (NumberExprAST 1) (NumberExprAST 2)) R
         \<in> set (left_spine
                  (the (fst (ParseExpression ?sd
                               (main_setup ?sd (initial_globals ''1*2+3'')))))))"
  proof -
    let ?m = "main_setup ?sd (initial_globals ''1*2+3'')"
    let ?g = "snd (ParsePrimary ?sd ?m)"
    let ?g1 = "snd (GetTokPrecedence ?g)"
    let ?r3 = "ParsePrimary ?sd (snd (getNextToken ?sd ?g1))"
    let ?g4 = "snd (GetTokPrecedence (snd ?r3))"
    let ?r = "ParseBinOpRHS ?sd 0 (NumberExprAST 1) ?g"
    have "fst (GetTokPrecedence ?g) = 40"
      by (simp add: lex_eval parse_eval)
    then have h1: "GetTokPrecedence ?g = (40, ?g1)"
      by (metis prod.collapse)
    have "fst ?r3 = Some (NumberExprAST 2)"
      by (simp add: lex_eval parse_eval strtod_digits_def)
    then have h3: "?r3 = (Some (NumberExprAST 2), snd ?r3)"
      by (metis prod.collapse)
    have "fst (GetTokPrecedence (snd ?r3)) = 20"
      by (simp add: lex_eval parse_eval)
    then have h4: "GetTokPrecedence (snd ?r3) = (20, ?g4)"
      by (metis prod.collapse)
    have ops: "char_of (CurTok ?g1) = CHR ''*''" "char_of (CurTok ?g4) = CHR ''+''"
      by (simp_all add: lex_eval parse_eval)
    have g1: "?g1 = ?g" and g4: "?g4 = snd ?r3"
      by (simp_all add: lex_eval parse_eval)
    have e: "ParseExpression ?sd ?m = ?r"
      by (simp add: lex_eval parse_eval strtod_digits_def)
    have "fst ?r \<noteq> None"
      by (simp add: lex_eval parse_eval strtod_digits_def)
    then have r: "?r = (Some (the (fst ?r)), snd ?r)"
      by (metis option.collapse prod.collapse)
    have "?r = ParseBinOpRHS ?sd 0
                 (BinaryExprAST (char_of (CurTok ?g1)) (NumberExprAST 1) (NumberExprAST 2)) ?g4"
      by (rule L1) (intro conjI, rule h1, simp, rule h3, rule h4, simp)
    then have 1: "?r = ParseBinOpRHS ?sd 0
                 (BinaryExprAST CHR ''*'' (NumberExprAST 1) (NumberExprAST 2))
                 (snd (ParsePrimary ?sd (snd (getNextToken ?sd ?g))))"
      unfolding ops g4 unfolding g1 .
    have "\<exists>R. BinaryExprAST (char_of (CurTok ?g4))
                 (BinaryExprAST (char_of (CurTok ?g1)) (NumberExprAST 1) (NumberExprAST 2)) R
               \<in> set (left_spine (the (fst ?r)))"
      by (rule L2 [where ExprPrec = 0 and p = 40 and q = 20])
         (intro conjI, rule h1, simp, rule h3, rule h4, simp, rule r, simp)
    then have 2: "\<exists>R. BinaryExprAST CHR ''+''
                 (BinaryExprAST CHR ''*'' (NumberExprAST 1) (NumberExprAST 2)) R
               \<in> set (left_spine (the (fst ?r)))"
      unfolding ops .
    from 1 2 show ?thesis
      unfolding e by (rule conjI)
  qed
  show ?thesis
    by (rule conjI [OF a conjI [OF c b]])
qed

subsection \<open>Function definitions\<close>

text \<open>
  C6. On the input \<open>def foo(x y) x+y\<close>, \<open>ParseDefinition\<close> succeeds; the prototype of
  the function it returns has the name \<open>foo\<close> and the parameters \<open>x\<close>, \<open>y\<close> in this
  order, and its body is the sum of the variables \<open>x\<close> and \<open>y\<close>.
\<close>

theorem ParseDefinition_foo:
  "fst (ParseDefinition strtod (main_setup strtod (initial_globals ''def foo(x y) x+y''))) =
     Some (FunctionAST (PrototypeAST ''foo'' [''x'', ''y''])
            (BinaryExprAST CHR ''+'' (VariableExprAST ''x'') (VariableExprAST ''y'')))"
  by (simp add: lex_eval parse_eval)

subsection \<open>The precedence table\<close>

lemma GetTokPrecedence_lookup:
  "fst (GetTokPrecedence g) =
     (if isascii (CurTok g) then
        (case BinopPrecedence g (char_of (CurTok g)) of
           None \<Rightarrow> - 1
         | Some v \<Rightarrow> if v \<le> 0 then - 1 else v)
      else - 1)"
  by (simp add: GetTokPrecedence_def map_subscript_def Let_def split: option.splits)


lemma snd_GetTokPrecedence:
  "snd (GetTokPrecedence g) =
     g\<lparr>BinopPrecedence :=
         (if isascii (CurTok g) \<and> BinopPrecedence g (char_of (CurTok g)) = None
          then (BinopPrecedence g)(char_of (CurTok g) \<mapsto> 0)
          else BinopPrecedence g)\<rparr>"
  by (simp add: GetTokPrecedence_def map_subscript_def Let_def split: option.splits)

lemma lookup_after_insert:
  "(case (if a \<and> m k = None then m(k \<mapsto> 0) else m) k' of
      None \<Rightarrow> - 1
    | Some v \<Rightarrow> if v \<le> 0 then - 1 else v) =
   (case m k' of None \<Rightarrow> - 1 | Some v \<Rightarrow> if v \<le> (0::int) then - 1 else v)"
  by (cases "k' = k") auto

lemma GetTokPrecedence_lookup_update:
  "fst (GetTokPrecedence (g\<lparr>BinopPrecedence := m, CurTok := t\<rparr>)) =
     (if isascii t then
        (case m (char_of t) of None \<Rightarrow> - 1 | Some v \<Rightarrow> if v \<le> 0 then - 1 else v)
      else - 1)"
  "fst (GetTokPrecedence (g\<lparr>CurTok := t\<rparr>)) =
     (if isascii t then
        (case BinopPrecedence g (char_of t) of
           None \<Rightarrow> - 1
         | Some v \<Rightarrow> if v \<le> 0 then - 1 else v)
      else - 1)"
  by (simp_all add: GetTokPrecedence_lookup)

text \<open>
  C3, as the code has it. A call of \<open>GetTokPrecedence\<close> changes nothing but the table,
  and the table only when the current token is an ASCII character without an entry: the
  subscript operator of the map then adds an entry of value 0 for it. The precedence
  returned for any token is the same after the call as before it.
\<close>

theorem GetTokPrecedence_table:
  "snd (GetTokPrecedence g) =
     g\<lparr>BinopPrecedence :=
         (if isascii (CurTok g) \<and> BinopPrecedence g (char_of (CurTok g)) = None
          then (BinopPrecedence g)(char_of (CurTok g) \<mapsto> 0)
          else BinopPrecedence g)\<rparr> \<and>
   fst (GetTokPrecedence ((snd (GetTokPrecedence g))\<lparr>CurTok := t\<rparr>)) =
     fst (GetTokPrecedence (g\<lparr>CurTok := t\<rparr>))"
  by (simp only: snd_GetTokPrecedence GetTokPrecedence_lookup_update(1)
        GetTokPrecedence_lookup_update(2) [where g = g] lookup_after_insert simp_thms)

text \<open>
  C3, as stated, fails: with the closing parenthesis as the current token, the table
  after the call is not the table before it.
\<close>

theorem GetTokPrecedence_adds_entry:
  "BinopPrecedence (snd (GetTokPrecedence (main_setup strtod_digits (initial_globals '')''))))
     \<noteq> BinopPrecedence (main_setup strtod_digits (initial_globals '')''))"
proof -
  let ?g = "main_setup strtod_digits (initial_globals '')'')"
  have "BinopPrecedence ?g CHR '')'' = None"
    by (simp add: BinopPrecedence_main_setup initial_globals_def)
  moreover have "BinopPrecedence (snd (GetTokPrecedence ?g)) CHR '')'' = Some 0"
    by (simp add: lex_eval parse_eval)
  ultimately show ?thesis by (metis option.distinct(1))
qed

subsection \<open>Parenthesized expressions\<close>

lemma ParseParenExpr_Some:
  assumes "ParseExpression strtod (snd (getNextToken strtod g)) = (Some V, g1)"
  shows "ParseParenExpr strtod g =
           (if CurTok g1 = 41 then (Some V, snd (getNextToken strtod g1))
            else LogError (''expected '' @ [CHR 0x27] @ '')'' @ [CHR 0x27]) g1)"
  using assms by (simp add: ParseParenExpr.simps [of strtod g])

text \<open>
  C5. On the input \<open>(1+2\<close>, \<open>ParsePrimary\<close> returns no expression and writes the
  message that a closing parenthesis was expected. In general, once the expression after
  the opening parenthesis has been parsed, \<open>ParseParenExpr\<close> succeeds exactly when the
  current token is the closing parenthesis; otherwise it returns nothing and writes the
  message.
\<close>

theorem ParseParenExpr_missing_paren:
  "(fst (ParsePrimary strtod (main_setup strtod (initial_globals ''(1+2''))) = None \<and>
    stderr (snd (ParsePrimary strtod (main_setup strtod (initial_globals ''(1+2'')))) =
      [''> '', ''Error: expected '' @ [CHR 0x27] @ '')'' @ [CHR 0x27, CHR 0x0A]]) \<and>
   (\<forall>g V g1. ParseExpression strtod (snd (getNextToken strtod g)) = (Some V, g1) \<longrightarrow>
      (fst (ParseParenExpr strtod g) \<noteq> None \<longleftrightarrow> CurTok g1 = 41) \<and>
      (CurTok g1 = 41 \<longrightarrow> ParseParenExpr strtod g = (Some V, snd (getNextToken strtod g1))) \<and>
      (CurTok g1 \<noteq> 41 \<longrightarrow>
         ParseParenExpr strtod g =
           (None, g1\<lparr>stderr := stderr g1 @
              [''Error: expected '' @ [CHR 0x27] @ '')'' @ [CHR 0x27, CHR 0x0A]]\<rparr>)))"
proof (intro conjI allI impI)
  show "fst (ParsePrimary strtod (main_setup strtod (initial_globals ''(1+2''))) = None"
    by (simp add: lex_eval parse_eval)
  show "stderr (snd (ParsePrimary strtod (main_setup strtod (initial_globals ''(1+2'')))) =
      [''> '', ''Error: expected '' @ [CHR 0x27] @ '')'' @ [CHR 0x27, CHR 0x0A]]"
    by (simp add: lex_eval parse_eval)
next
  fix g V g1
  assume e: "ParseExpression strtod (snd (getNextToken strtod g)) = (Some V, g1)"
  show "(fst (ParseParenExpr strtod g) \<noteq> None) = (CurTok g1 = 41)"
    by (simp add: ParseParenExpr_Some [OF e] LogError_def)
  show "ParseParenExpr strtod g = (Some V, snd (getNextToken strtod g1))" if "CurTok g1 = 41"
    using that by (simp add: ParseParenExpr_Some [OF e])
  show "ParseParenExpr strtod g =
           (None, g1\<lparr>stderr := stderr g1 @
              [''Error: expected '' @ [CHR 0x27] @ '')'' @ [CHR 0x27, CHR 0x0A]]\<rparr>)"
    if "CurTok g1 \<noteq> 41"
    using that by (simp add: ParseParenExpr_Some [OF e] LogError_def)
qed

text \<open>The general part of C5 at the input \<open>(7)\<close>.\<close>

theorem ParseParenExpr_missing_paren_witness:
  "fst (ParseExpression strtod_digits (snd (getNextToken strtod_digits
          (main_setup strtod_digits (initial_globals ''(7)''))))) = Some (NumberExprAST 7) \<and>
   CurTok (snd (ParseExpression strtod_digits (snd (getNextToken strtod_digits
          (main_setup strtod_digits (initial_globals ''(7)'')))))) = 41 \<and>
   fst (ParseParenExpr strtod_digits (main_setup strtod_digits (initial_globals ''(7)''))) =
     Some (NumberExprAST 7)"
proof -
  let ?g = "main_setup strtod_digits (initial_globals ''(7)'')"
  let ?r = "ParseExpression strtod_digits (snd (getNextToken strtod_digits ?g))"
  have v: "fst ?r = Some (NumberExprAST 7)"
    by (simp add: lex_eval parse_eval strtod_digits_def)
  have c: "CurTok (snd ?r) = 41"
    by (simp add: lex_eval parse_eval)
  from v have e: "?r = (Some (NumberExprAST 7), snd ?r)"
    by (metis prod.collapse)
  from ParseParenExpr_missing_paren [of strtod_digits] e c
  have "ParseParenExpr strtod_digits ?g =
          (Some (NumberExprAST 7), snd (getNextToken strtod_digits (snd ?r)))"
    by blast
  with v c show ?thesis by simp
qed

subsection \<open>Operators of equal precedence\<close>

text \<open>
  C2. On the input \<open>1-2-3\<close>, \<open>ParseExpression\<close> returns the difference of the
  difference of 1 and 2, and 3. In general, when the loop of \<open>ParseBinOpRHS\<close> meets
  two operators of the same precedence in a row, each followed by a primary expression,
  and what follows binds no tighter, it goes on with the node of the second operator,
  whose left child is the node built from the first. Whatever follows the second
  operator, the loop first builds the node of the first operator from the expression
  between the two, and in every tree that it returns the node of the second operator
  has that node as its left child.
\<close>

theorem ParseBinOpRHS_left_assoc:
  "fst (ParseExpression strtod (main_setup strtod (initial_globals ''1-2-3''))) =
     Some (BinaryExprAST CHR ''-''
            (BinaryExprAST CHR ''-'' (NumberExprAST (strtod ''1''))
               (NumberExprAST (strtod ''2'')))
            (NumberExprAST (strtod ''3''))) \<and>
   (\<forall>ExprPrec LHS g p g1 RHS g3 g4 RHS' g6 q g7.
      GetTokPrecedence g = (p, g1) \<and> ExprPrec \<le> p \<and>
      ParsePrimary strtod (snd (getNextToken strtod g1)) = (Some RHS, g3) \<and>
      GetTokPrecedence g3 = (p, g4) \<and>
      ParsePrimary strtod (snd (getNextToken strtod g4)) = (Some RHS', g6) \<and>
      GetTokPrecedence g6 = (q, g7) \<and> q \<le> p \<longrightarrow>
      ParseBinOpRHS strtod ExprPrec LHS g =
        ParseBinOpRHS strtod ExprPrec
          (BinaryExprAST (char_of (CurTok g4))
             (BinaryExprAST (char_of (CurTok g1)) LHS RHS) RHS') g7) \<and>
   (\<forall>ExprPrec LHS g p g1 RHS g3 g4.
      GetTokPrecedence g = (p, g1) \<and> ExprPrec \<le> p \<and>
      ParsePrimary strtod (snd (getNextToken strtod g1)) = (Some RHS, g3) \<and>
      GetTokPrecedence g3 = (p, g4) \<longrightarrow>
      ParseBinOpRHS strtod ExprPrec LHS g =
        ParseBinOpRHS strtod ExprPrec (BinaryExprAST (char_of (CurTok g1)) LHS RHS) g4 \<and>
      (\<forall>T g'. ParseBinOpRHS strtod ExprPrec LHS g = (Some T, g') \<longrightarrow>
         (\<exists>R. BinaryExprAST (char_of (CurTok g4))
                 (BinaryExprAST (char_of (CurTok g1)) LHS RHS) R \<in> set (left_spine T))))"
proof (intro conjI allI impI)
  show "fst (ParseExpression strtod (main_setup strtod (initial_globals ''1-2-3''))) =
     Some (BinaryExprAST CHR ''-''
            (BinaryExprAST CHR ''-'' (NumberExprAST (strtod ''1''))
               (NumberExprAST (strtod ''2'')))
            (NumberExprAST (strtod ''3'')))"
    by (simp add: lex_eval parse_eval)
next
  fix ExprPrec LHS g p g1 RHS g3 g4 RHS' g6 q g7
  assume a: "GetTokPrecedence g = (p, g1) \<and> ExprPrec \<le> p \<and>
      ParsePrimary strtod (snd (getNextToken strtod g1)) = (Some RHS, g3) \<and>
      GetTokPrecedence g3 = (p, g4) \<and>
      ParsePrimary strtod (snd (getNextToken strtod g4)) = (Some RHS', g6) \<and>
      GetTokPrecedence g6 = (q, g7) \<and> q \<le> p"
  then have h: "GetTokPrecedence g = (p, g1)" "ExprPrec \<le> p"
      "ParsePrimary strtod (snd (getNextToken strtod g1)) = (Some RHS, g3)"
      "GetTokPrecedence g3 = (p, g4)"
      "ParsePrimary strtod (snd (getNextToken strtod g4)) = (Some RHS', g6)"
      "GetTokPrecedence g6 = (q, g7)" "q \<le> p"
    by simp_all
  have p4: "GetTokPrecedence g4 = (p, g4)"
    using h(4) by (metis GetTokPrecedence_idem snd_conv)
  have "ParseBinOpRHS strtod ExprPrec LHS g =
      ParseBinOpRHS strtod ExprPrec (BinaryExprAST (char_of (CurTok g1)) LHS RHS) g4"
    by (rule ParseBinOpRHS_step [OF h(1,2,3,4) order_refl])
  also have "\<dots> = ParseBinOpRHS strtod ExprPrec
          (BinaryExprAST (char_of (CurTok g4))
             (BinaryExprAST (char_of (CurTok g1)) LHS RHS) RHS') g7"
    by (rule ParseBinOpRHS_step [OF p4 h(2,5,6,7)])
  finally show "ParseBinOpRHS strtod ExprPrec LHS g =
        ParseBinOpRHS strtod ExprPrec
          (BinaryExprAST (char_of (CurTok g4))
             (BinaryExprAST (char_of (CurTok g1)) LHS RHS) RHS') g7" .
next
  fix ExprPrec LHS g p g1 RHS g3 g4
  assume a: "GetTokPrecedence g = (p, g1) \<and> ExprPrec \<le> p \<and>
      ParsePrimary strtod (snd (getNextToken strtod g1)) = (Some RHS, g3) \<and>
      GetTokPrecedence g3 = (p, g4)"
  then have h: "GetTokPrecedence g = (p, g1)" "ExprPrec \<le> p"
      "ParsePrimary strtod (snd (getNextToken strtod g1)) = (Some RHS, g3)"
      "GetTokPrecedence g3 = (p, g4)"
    by simp_all
  show "ParseBinOpRHS strtod ExprPrec LHS g =
      ParseBinOpRHS strtod ExprPrec (BinaryExprAST (char_of (CurTok g1)) LHS RHS) g4"
    by (rule ParseBinOpRHS_step [OF h order_refl])
next
  fix ExprPrec LHS g p g1 RHS g3 g4 T g'
  assume a: "GetTokPrecedence g = (p, g1) \<and> ExprPrec \<le> p \<and>
      ParsePrimary strtod (snd (getNextToken strtod g1)) = (Some RHS, g3) \<and>
      GetTokPrecedence g3 = (p, g4)"
    and r: "ParseBinOpRHS strtod ExprPrec LHS g = (Some T, g')"
  from a have h: "GetTokPrecedence g = (p, g1)" "ExprPrec \<le> p"
      "ParsePrimary strtod (snd (getNextToken strtod g1)) = (Some RHS, g3)"
      "GetTokPrecedence g3 = (p, g4)"
    by simp_all
  have "ParseBinOpRHS strtod ExprPrec LHS g =
      ParseBinOpRHS strtod ExprPrec (BinaryExprAST (char_of (CurTok g1)) LHS RHS) g4"
    by (rule ParseBinOpRHS_step [OF h order_refl])
  with r have "ParseBinOpRHS strtod ExprPrec (BinaryExprAST (char_of (CurTok g1)) LHS RHS) g4 =
      (Some T, g')"
    by simp
  with GetTokPrecedence_again [OF h(4)] h(2)
  show "\<exists>R. BinaryExprAST (char_of (CurTok g4))
               (BinaryExprAST (char_of (CurTok g1)) LHS RHS) R \<in> set (left_spine T)"
    by (rule ParseBinOpRHS_first_node)
qed

text \<open>
  The general part of C2 at the input \<open>1-2-3\<close>, from the state in which the first
  number has been parsed.
\<close>

theorem ParseBinOpRHS_left_assoc_witness:
  "fst (GetTokPrecedence
          (snd (ParsePrimary strtod_digits
                  (main_setup strtod_digits (initial_globals ''1-2-3''))))) = 30 \<and>
   fst (ParseBinOpRHS strtod_digits 0 (NumberExprAST 1)
          (snd (ParsePrimary strtod_digits
                  (main_setup strtod_digits (initial_globals ''1-2-3''))))) =
     Some (BinaryExprAST CHR ''-''
            (BinaryExprAST CHR ''-'' (NumberExprAST 1) (NumberExprAST 2))
            (NumberExprAST 3)) \<and>
   (\<exists>R. BinaryExprAST CHR ''-''
           (BinaryExprAST CHR ''-'' (NumberExprAST 1) (NumberExprAST 2)) R
        \<in> set (left_spine
                 (the (fst (ParseBinOpRHS strtod_digits 0 (NumberExprAST 1)
                              (snd (ParsePrimary strtod_digits
                                      (main_setup strtod_digits
                                         (initial_globals ''1-2-3'')))))))))"
proof -
  let ?sd = strtod_digits
  let ?g = "snd (ParsePrimary ?sd (main_setup ?sd (initial_globals ''1-2-3'')))"
  let ?g1 = "snd (GetTokPrecedence ?g)"
  let ?r3 = "ParsePrimary ?sd (snd (getNextToken ?sd ?g1))"
  let ?g4 = "snd (GetTokPrecedence (snd ?r3))"
  let ?r6 = "ParsePrimary ?sd (snd (getNextToken ?sd ?g4))"
  let ?g7 = "snd (GetTokPrecedence (snd ?r6))"
  have p: "fst (GetTokPrecedence ?g) = 30"
    by (simp add: lex_eval parse_eval)
  then have h1: "GetTokPrecedence ?g = (30, ?g1)"
    by (metis prod.collapse)
  have "fst ?r3 = Some (NumberExprAST 2)"
    by (simp add: lex_eval parse_eval strtod_digits_def)
  then have h3: "?r3 = (Some (NumberExprAST 2), snd ?r3)"
    by (metis prod.collapse)
  have "fst (GetTokPrecedence (snd ?r3)) = 30"
    by (simp add: lex_eval parse_eval)
  then have h4: "GetTokPrecedence (snd ?r3) = (30, ?g4)"
    by (metis prod.collapse)
  have "fst ?r6 = Some (NumberExprAST 3)"
    by (simp add: lex_eval parse_eval strtod_digits_def)
  then have h6: "?r6 = (Some (NumberExprAST 3), snd ?r6)"
    by (metis prod.collapse)
  have "fst (GetTokPrecedence (snd ?r6)) = - 1"
    by (simp add: lex_eval parse_eval)
  then have h7: "GetTokPrecedence (snd ?r6) = (- 1, ?g7)"
    by (metis prod.collapse)
  have ops: "char_of (CurTok ?g1) = CHR ''-''" "char_of (CurTok ?g4) = CHR ''-''"
    by (simp_all add: lex_eval parse_eval)
  have "ParseBinOpRHS ?sd 0 (NumberExprAST 1) ?g =
        ParseBinOpRHS ?sd 0
          (BinaryExprAST (char_of (CurTok ?g4))
             (BinaryExprAST (char_of (CurTok ?g1)) (NumberExprAST 1) (NumberExprAST 2))
             (NumberExprAST 3)) ?g7"
    by (rule ParseBinOpRHS_left_assoc
             [of ?sd, THEN conjunct2, THEN conjunct1, rule_format])
       (intro conjI, rule h1, simp, rule h3, rule h4, rule h6, rule h7, simp)
  moreover have "fst (ParseBinOpRHS ?sd 0
          (BinaryExprAST CHR ''-''
             (BinaryExprAST CHR ''-'' (NumberExprAST 1) (NumberExprAST 2))
             (NumberExprAST 3)) ?g7) =
        Some (BinaryExprAST CHR ''-''
             (BinaryExprAST CHR ''-'' (NumberExprAST 1) (NumberExprAST 2))
             (NumberExprAST 3))"
    by (simp add: lex_eval parse_eval)
  ultimately have 1: "fst (GetTokPrecedence ?g) = 30 \<and>
      fst (ParseBinOpRHS ?sd 0 (NumberExprAST 1) ?g) =
        Some (BinaryExprAST CHR ''-''
               (BinaryExprAST CHR ''-'' (NumberExprAST 1) (NumberExprAST 2))
               (NumberExprAST 3))"
    using p ops by simp
  let ?r = "ParseBinOpRHS ?sd 0 (NumberExprAST 1) ?g"
  from 1 have "fst ?r \<noteq> None"
    by simp
  then have r: "?r = (Some (the (fst ?r)), snd ?r)"
    by (metis option.collapse prod.collapse)
  have "\<exists>R. BinaryExprAST (char_of (CurTok ?g4))
               (BinaryExprAST (char_of (CurTok ?g1)) (NumberExprAST 1) (NumberExprAST 2)) R
             \<in> set (left_spine (the (fst ?r)))"
    by (rule ParseBinOpRHS_left_assoc
             [of ?sd, THEN conjunct2, THEN conjunct2, rule_format, THEN conjunct2,
              rule_format, where ExprPrec = 0 and p = 30])
       (intro conjI, rule h1, simp, rule h3, rule h4, rule r)
  then have 2: "\<exists>R. BinaryExprAST CHR ''-''
               (BinaryExprAST CHR ''-'' (NumberExprAST 1) (NumberExprAST 2)) R
             \<in> set (left_spine (the (fst ?r)))"
    unfolding ops .
  from 1 2 show ?thesis
    by (simp only: simp_thms)
qed

subsection \<open>Calls without arguments\<close>

text \<open>
  C10. An identifier followed by an opening and a closing parenthesis with nothing
  between them is a call without arguments: on the input \<open>foo()\<close>,
  \<open>ParseIdentifierExpr\<close> returns the call of \<open>foo\<close> with the empty argument list, and
  so it does whenever the next two tokens are the two parentheses; the closing parenthesis
  is consumed.
\<close>

theorem ParseIdentifierExpr_empty_call:
  "fst (ParseIdentifierExpr strtod (main_setup strtod (initial_globals ''foo()''))) =
     Some (CallExprAST ''foo'' []) \<and>
   (\<forall>g. fst (getNextToken strtod g) = 40 \<and>
        fst (getNextToken strtod (snd (getNextToken strtod g))) = 41 \<longrightarrow>
        ParseIdentifierExpr strtod g =
          (Some (CallExprAST (IdentifierStr g) []),
           snd (getNextToken strtod (snd (getNextToken strtod (snd (getNextToken strtod g)))))))"
proof (intro conjI allI impI)
  show "fst (ParseIdentifierExpr strtod (main_setup strtod (initial_globals ''foo()''))) =
     Some (CallExprAST ''foo'' [])"
    by (simp add: lex_eval parse_eval)
next
  fix g
  assume "fst (getNextToken strtod g) = 40 \<and>
        fst (getNextToken strtod (snd (getNextToken strtod g))) = 41"
  then show "ParseIdentifierExpr strtod g =
          (Some (CallExprAST (IdentifierStr g) []),
           snd (getNextToken strtod (snd (getNextToken strtod (snd (getNextToken strtod g))))))"
    by (simp add: ParseIdentifierExpr.simps [of strtod g] Let_def)
qed

text \<open>The general part of C10 at the input \<open>bar()\<close>.\<close>

theorem ParseIdentifierExpr_empty_call_witness:
  "fst (getNextToken strtod_digits (main_setup strtod_digits (initial_globals ''bar()''))) = 40 \<and>
   fst (getNextToken strtod_digits (snd (getNextToken strtod_digits
          (main_setup strtod_digits (initial_globals ''bar()''))))) = 41 \<and>
   fst (ParseIdentifierExpr strtod_digits (main_setup strtod_digits (initial_globals ''bar()''))) =
     Some (CallExprAST ''bar'' [])"
proof -
  let ?g = "main_setup strtod_digits (initial_globals ''bar()'')"
  have a: "fst (getNextToken strtod_digits ?g) = 40"
    by (simp add: lex_eval parse_eval)
  have b: "fst (getNextToken strtod_digits (snd (getNextToken strtod_digits ?g))) = 41"
    by (simp add: lex_eval parse_eval)
  have i: "IdentifierStr ?g = ''bar''"
    by (simp add: lex_eval parse_eval)
  from ParseIdentifierExpr_empty_call [of strtod_digits] a b
  have "fst (ParseIdentifierExpr strtod_digits ?g) = Some (CallExprAST (IdentifierStr ?g) [])"
    by simp
  with a b i show ?thesis by simp
qed

subsection \<open>Termination\<close>

lemmas unread_Parse = unread_Parse_dom [OF Parse_terminates [THEN spec]]

lemma unread_updates [simp]:
  "unread (g\<lparr>stderr := e\<rparr>) = unread g"
  "unread (g\<lparr>BinopPrecedence := m\<rparr>) = unread g"
  by (simp_all add: unread_def)

lemma unread_LogErrorProto [simp]: "unread (snd (LogErrorProto s g)) = unread g"
  by (simp add: LogErrorProto_def LogError_def)

lemma fst_LogErrorProto [simp]: "fst (LogErrorProto s g) = None"
  by (simp add: LogErrorProto_def)

















subsection \<open>Numbers\<close>

text \<open>
  C8. When \<open>LastChar\<close> is a digit or the decimal point, \<open>gettok\<close> consumes the
  longest run of digits and points that starts there, returns \<open>tok_number\<close> and stores
  in \<open>NumVal\<close> what \<open>strtod\<close> returns for the run; \<open>LastChar\<close> becomes the character
  after the run. Nothing is validated: \<open>1.2.3\<close> and a lone point are numbers too.
\<close>

theorem gettok_number_token:
  "(isdigit (LastChar g) \<or> LastChar g = 46 \<longrightarrow>
      gettok strtod g =
        (tok_number,
         g\<lparr>stdin := tl (dropWhile number_char (stdin g)),
           LastChar := (case dropWhile number_char (stdin g) of
                          [] \<Rightarrow> EOF
                        | c # cs \<Rightarrow> of_char c),
           NumVal := strtod (char_of (LastChar g) # takeWhile number_char (stdin g))\<rparr>)) \<and>
   (fst (gettok strtod (initial_globals ''1.2.3'')) = tok_number \<and>
    NumVal (snd (gettok strtod (initial_globals ''1.2.3''))) = strtod ''1.2.3'') \<and>
   (fst (gettok strtod (initial_globals ''.'')) = tok_number \<and>
    NumVal (snd (gettok strtod (initial_globals ''.''))) = strtod ''.'')"
proof (intro conjI impI)
  assume d: "isdigit (LastChar g) \<or> LastChar g = 46"
  then have "\<not> isspace (LastChar g)"
    by (auto simp: isdigit_def isspace_def)
  then have "gettok_space g = g"
    by (rule gettok_space_id)
  with d show "gettok strtod g =
        (tok_number,
         g\<lparr>stdin := tl (dropWhile number_char (stdin g)),
           LastChar := (case dropWhile number_char (stdin g) of
                          [] \<Rightarrow> EOF
                        | c # cs \<Rightarrow> of_char c),
           NumVal := strtod (char_of (LastChar g) # takeWhile number_char (stdin g))\<rparr>)"
    by (simp add: gettok_num gettok_number_run)
qed (simp_all add: lex_eval initial_globals_def)

text \<open>The general part of C8 on the second token of \<open>+12.5.+x\<close>.\<close>

theorem gettok_number_token_witness:
  "isdigit (LastChar (snd (gettok strtod_digits (initial_globals ''+12.5.+x'')))) \<and>
   fst (gettok strtod_digits (snd (gettok strtod_digits (initial_globals ''+12.5.+x''))))
     = tok_number \<and>
   NumVal (snd (gettok strtod_digits
                  (snd (gettok strtod_digits (initial_globals ''+12.5.+x'')))))
     = strtod_digits ''12.5.'' \<and>
   LastChar (snd (gettok strtod_digits
                    (snd (gettok strtod_digits (initial_globals ''+12.5.+x'')))))
     = of_char CHR ''+''"
proof -
  let ?g = "snd (gettok strtod_digits (initial_globals ''+12.5.+x''))"
  have g: "?g = \<lparr>stdin = ''2.5.+x'', stderr = [], LastChar = 49, IdentifierStr = [],
              NumVal = 0, CurTok = 0, BinopPrecedence = Map.empty\<rparr>"
    by (simp add: lex_eval initial_globals_def)
  have d: "isdigit (LastChar ?g) \<or> LastChar ?g = 46"
    unfolding g by (simp add: isdigit_def)
  have d1: "isdigit (LastChar ?g)"
    unfolding g by (simp add: isdigit_def)
  note t = gettok_number_token [of ?g strtod_digits, THEN conjunct1, rule_format, OF d]
  have "fst (gettok strtod_digits ?g) = tok_number"
    unfolding t by simp
  moreover have "NumVal (snd (gettok strtod_digits ?g)) = strtod_digits ''12.5.''"
    unfolding t by (simp add: g number_char_def isdigit_def char_of_def)
  moreover have "LastChar (snd (gettok strtod_digits ?g)) = of_char CHR ''+''"
    unfolding t by (simp add: g number_char_def isdigit_def)
  ultimately show ?thesis
    using d1 by blast
qed

subsection \<open>Comments\<close>

lemma strip_comment_head:
  "strip_comments (dropWhile comment_char cs) = [] \<or>
   (\<exists>e es. strip_comments (dropWhile comment_char cs) = e # es \<and> \<not> comment_char e)"
proof (cases "dropWhile comment_char cs")
  case Nil
  then show ?thesis by (simp del: dropWhile_eq_Nil_conv)
next
  case (Cons e es)
  then have "\<not> comment_char e"
    by (metis hd_dropWhile list.distinct(1) list.sel(1))
  moreover from this have "e \<noteq> CHR ''#''"
    by (auto simp: comment_char_def)
  ultimately show ?thesis
    using Cons by simp
qed

lemma strip_comments_takeWhile:
  assumes "\<not> P CHR ''#''" and "\<And>e. \<not> comment_char e \<Longrightarrow> \<not> P e"
  shows "takeWhile P (strip_comments cs) = takeWhile P cs"
proof (induction cs rule: strip_comments.induct)
  case 1
  show ?case by simp
next
  case (2 c cs)
  show ?case
  proof (cases "c = CHR ''#''")
    case True
    have "takeWhile P (strip_comments (dropWhile comment_char cs)) = []"
      using strip_comment_head [of cs] assms(2) by auto
    with True assms(1) show ?thesis by simp
  next
    case False
    with 2 show ?thesis by simp
  qed
qed

lemma strip_comments_dropWhile:
  assumes "\<not> P CHR ''#''" and "\<And>e. \<not> comment_char e \<Longrightarrow> \<not> P e"
  shows "dropWhile P (strip_comments cs) = strip_comments (dropWhile P cs)"
proof (induction cs rule: strip_comments.induct)
  case 1
  show ?case by simp
next
  case (2 c cs)
  show ?case
  proof (cases "c = CHR ''#''")
    case True
    have "dropWhile P (strip_comments (dropWhile comment_char cs)) =
          strip_comments (dropWhile comment_char cs)"
      using strip_comment_head [of cs] assms(2) by auto
    with True assms(1) show ?thesis by simp
  next
    case False
    with 2 show ?thesis by simp
  qed
qed

lemma strip_comments_spaces:
  "dropWhile space_char (strip_comments (dropWhile space_char cs)) =
   dropWhile space_char (strip_comments cs)"
proof (induction cs)
  case Nil
  show ?case by simp
next
  case (Cons c cs)
  show ?case
  proof (cases "space_char c")
    case True
    then have "c \<noteq> CHR ''#''"
      by (auto simp: space_char_def isspace_def)
    with True Cons show ?thesis by simp
  next
    case False
    then show ?thesis by simp
  qed
qed

lemma of_char_range: "0 \<le> (of_char c :: int) \<and> (of_char c :: int) \<le> 255"
proof -
  have "\<And>x::int. 0 \<le> x mod 256 \<and> x mod 256 \<le> 255"
    by simp
  from this [of "of_char c"] show ?thesis
    by (simp only: of_char_mod_256)
qed

lemma of_char_not_EOF [simp]: "(of_char c :: int) \<noteq> EOF"
  using of_char_range [of c] by (simp add: EOF_def)

lemma lexer_ok_char:
  "lexer_ok g \<Longrightarrow> LastChar g \<noteq> EOF \<Longrightarrow> LastChar g mod 256 = LastChar g"
  by (auto simp: lexer_ok_def)

lemma after_run_props:
  "lexer_ok (after_run P g)"
  "unconsumed (after_run P g) = dropWhile P (stdin g)"
  "IdentifierStr (after_run P g) = IdentifierStr g"
  "NumVal (after_run P g) = NumVal g"
proof -
  show "lexer_ok (after_run P g)" "unconsumed (after_run P g) = dropWhile P (stdin g)"
    using of_char_range
    by (cases "dropWhile P (stdin g)";
        simp add: after_run_def lexer_ok_def unconsumed_def del: dropWhile_eq_Nil_conv)+
  show "IdentifierStr (after_run P g) = IdentifierStr g" "NumVal (after_run P g) = NumVal g"
    by (simp_all add: after_run_def)
qed

lemma after_run_Nil:
  "stdin g = [] \<Longrightarrow> after_run P g = g\<lparr>LastChar := EOF\<rparr>"
  by (cases g) (simp add: after_run_def)

lemma after_run_Cons:
  "stdin g = c # cs \<Longrightarrow>
   after_run P g =
     (if P c then after_run P (g\<lparr>stdin := cs, LastChar := of_char c\<rparr>)
      else g\<lparr>stdin := cs, LastChar := of_char c\<rparr>)"
  by (simp add: after_run_def)

lemma next_LastChar_props:
  "lexer_ok (next_LastChar g)"
  "unconsumed (next_LastChar g) = stdin g"
  "IdentifierStr (next_LastChar g) = IdentifierStr g"
  "NumVal (next_LastChar g) = NumVal g"
  using of_char_range
  by (auto simp: next_LastChar_def getchar_def lexer_ok_def unconsumed_def split: list.splits)

lemma gettok_space_props:
  "lexer_ok g \<Longrightarrow>
   lexer_ok (gettok_space g) \<and>
   unconsumed (gettok_space g) = dropWhile space_char (unconsumed g) \<and>
   IdentifierStr (gettok_space g) = IdentifierStr g \<and>
   NumVal (gettok_space g) = NumVal g"
proof (induction g rule: gettok_space.induct)
  case (1 g)
  show ?case
  proof (cases "isspace (LastChar g)")
    case True
    then have ne: "LastChar g \<noteq> EOF"
      by (rule isspace_not_EOF)
    with True 1(2) have sp: "space_char (char_of (LastChar g))"
      by (simp add: space_char_def lexer_ok_char)
    from True have "gettok_space g = gettok_space (next_LastChar g)"
      by (simp add: gettok_space.simps [of g])
    with 1(1) [OF True next_LastChar_props(1)] ne sp show ?thesis
      by (simp add: next_LastChar_props unconsumed_def [of g])
  next
    case False
    then have "gettok_space g = g"
      by (simp add: gettok_space.simps [of g])
    moreover from False 1(2) have "dropWhile space_char (unconsumed g) = unconsumed g"
      by (auto simp: unconsumed_def space_char_def lexer_ok_char)
    ultimately show ?thesis
      using 1(2) by simp
  qed
qed

lemma gettok_ident_run:
  "gettok_ident g =
     (after_run alnum_char g)\<lparr>IdentifierStr := IdentifierStr g @ takeWhile alnum_char (stdin g)\<rparr>"
proof (induction "stdin g" arbitrary: g)
  case Nil
  then have n: "next_LastChar g = g\<lparr>LastChar := EOF\<rparr>"
    by (simp add: next_LastChar_Nil)
  have "gettok_ident g = g\<lparr>LastChar := EOF\<rparr>"
    by (simp add: gettok_ident.simps [of g] n Let_def isalnum_def isalpha_def isdigit_def EOF_def)
  with Nil [symmetric] show ?case
    by (simp add: after_run_Nil)
next
  case (Cons c cs)
  let ?g1 = "g\<lparr>stdin := cs, LastChar := of_char c\<rparr>"
  from Cons(2) have n: "next_LastChar g = ?g1"
    by (simp add: next_LastChar_Cons)
  show ?case
  proof (cases "alnum_char c")
    case True
    let ?g2 = "?g1\<lparr>IdentifierStr := IdentifierStr g @ [c]\<rparr>"
    from True have "gettok_ident g = gettok_ident ?g2"
      by (simp add: gettok_ident.simps [of g] n Let_def alnum_char_def)
    also have "\<dots> = (after_run alnum_char ?g2)
        \<lparr>IdentifierStr := IdentifierStr ?g2 @ takeWhile alnum_char (stdin ?g2)\<rparr>"
      by (rule Cons(1)) simp
    finally show ?thesis
      using True Cons(2) [symmetric]
      by (simp add: after_run_Cons [of g c cs] after_run_def)
  next
    case False
    then have "gettok_ident g = ?g1"
      by (simp add: gettok_ident.simps [of g] n Let_def alnum_char_def)
    with False Cons(2) [symmetric] show ?thesis
      by (simp add: after_run_Cons [of g c cs])
  qed
qed

lemma comment_char_iff:
  "comment_char c \<longleftrightarrow> (of_char c :: int) \<noteq> 10 \<and> (of_char c :: int) \<noteq> 13"
proof -
  have "(of_char c :: int) = 10 \<longleftrightarrow> c = char_of (10::int)"
    using char_of_eq_iff [of 10 c] by auto
  moreover have "(of_char c :: int) = 13 \<longleftrightarrow> c = char_of (13::int)"
    using char_of_eq_iff [of 13 c] by auto
  moreover have "char_of (10::int) = CHR 0x0A" "char_of (13::int) = CHR 0x0D"
    by (simp_all add: char_of_def)
  ultimately show ?thesis
    by (simp add: comment_char_def)
qed

lemma gettok_comment_run: "gettok_comment g = after_run comment_char g"
proof (induction "stdin g" arbitrary: g)
  case Nil
  then have n: "next_LastChar g = g\<lparr>LastChar := EOF\<rparr>"
    by (simp add: next_LastChar_Nil)
  have "gettok_comment g = g\<lparr>LastChar := EOF\<rparr>"
    by (simp add: gettok_comment.simps [of g] n Let_def)
  with Nil [symmetric] show ?case
    by (simp add: after_run_Nil)
next
  case (Cons c cs)
  let ?g1 = "g\<lparr>stdin := cs, LastChar := of_char c\<rparr>"
  from Cons(2) have n: "next_LastChar g = ?g1"
    by (simp add: next_LastChar_Cons)
  show ?case
  proof (cases "comment_char c")
    case True
    then have "gettok_comment g = gettok_comment ?g1"
      by (simp add: gettok_comment.simps [of g] n Let_def comment_char_iff)
    also have "\<dots> = after_run comment_char ?g1"
      by (rule Cons(1)) simp
    finally show ?thesis
      using True Cons(2) [symmetric] by (simp add: after_run_Cons [of g c cs])
  next
    case False
    then have "gettok_comment g = ?g1"
      by (auto simp add: gettok_comment.simps [of g] n Let_def comment_char_iff)
    with False Cons(2) [symmetric] show ?thesis
      by (simp add: after_run_Cons [of g c cs])
  qed
qed

lemma gettok_number_after_run:
  "gettok_number s g =
     (s @ char_of (LastChar g) # takeWhile number_char (stdin g), after_run number_char g)"
  by (simp add: gettok_number_run after_run_def)

lemma lexer_ok_updates [simp]:
  "lexer_ok (g\<lparr>IdentifierStr := s\<rparr>) = lexer_ok g"
  "lexer_ok (g\<lparr>NumVal := v\<rparr>) = lexer_ok g"
  by (simp_all add: lexer_ok_def)

lemma unconsumed_updates [simp]:
  "unconsumed (g\<lparr>IdentifierStr := s\<rparr>) = unconsumed g"
  "unconsumed (g\<lparr>NumVal := v\<rparr>) = unconsumed g"
  by (simp_all add: unconsumed_def)

lemma unconsumed_Nil: "unconsumed g = [] \<Longrightarrow> LastChar g = EOF"
  by (simp add: unconsumed_def split: if_splits)

lemma unconsumed_Cons:
  assumes "lexer_ok g" and "unconsumed g = c # cs"
  shows "LastChar g = of_char c" and "stdin g = cs" and "char_of (LastChar g) = c"
proof -
  from assms(2) have ne: "LastChar g \<noteq> EOF" and c: "char_of (LastChar g) = c"
    and s: "stdin g = cs"
    by (simp_all add: unconsumed_def split: if_splits)
  from c have "(of_char c :: int) = LastChar g mod 256"
    by (simp add: of_char_of [symmetric])
  with lexer_ok_char [OF assms(1) ne] show "LastChar g = of_char c"
    by simp
  from s c show "stdin g = cs" "char_of (LastChar g) = c"
    by simp_all
qed

lemma view_head:
  "dropWhile space_char xs = c # cs \<Longrightarrow> \<not> space_char c"
  by (metis hd_dropWhile list.distinct(1) list.sel(1))

lemma scanned_eof:
  assumes "lexer_ok g" and "dropWhile space_char (unconsumed g) = []"
  shows "scanned strtod g = (tok_eof, IdentifierStr g, NumVal g, []) \<and>
         lexer_ok (snd (gettok strtod g))"
proof -
  let ?gs = "gettok_space g"
  note sp = gettok_space_props [OF assms(1)]
  with assms(2) have u: "unconsumed ?gs = []"
    by simp
  then have e: "LastChar ?gs = EOF"
    by (rule unconsumed_Nil)
  then have "gettok strtod g = (tok_eof, ?gs)"
    by (simp add: gettok_other isalpha_def isdigit_def EOF_def Let_def)
  with sp u show ?thesis
    by (simp add: scanned_def)
qed

lemma scanned_alpha:
  assumes "lexer_ok g" and "dropWhile space_char (unconsumed g) = c # cs"
    and "isalpha (of_char c)"
  shows "scanned strtod g =
           (if c # takeWhile alnum_char cs = ''def'' then tok_def
            else if c # takeWhile alnum_char cs = ''extern'' then tok_extern
            else tok_identifier,
            c # takeWhile alnum_char cs, NumVal g, dropWhile alnum_char cs) \<and>
         lexer_ok (snd (gettok strtod g))"
proof -
  let ?gs = "gettok_space g"
  note sp = gettok_space_props [OF assms(1)]
  with assms(2) have u: "unconsumed ?gs = c # cs"
    by simp
  from sp have ok: "lexer_ok ?gs" by simp
  note h = unconsumed_Cons [OF ok u]
  let ?g1 = "gettok_ident (?gs\<lparr>IdentifierStr := [char_of (LastChar ?gs)]\<rparr>)"
  have g1: "?g1 = (after_run alnum_char (?gs\<lparr>IdentifierStr := [c]\<rparr>))
                    \<lparr>IdentifierStr := c # takeWhile alnum_char cs\<rparr>"
    by (simp add: gettok_ident_run h)
  have p: "lexer_ok ?g1" "unconsumed ?g1 = dropWhile alnum_char cs"
    "IdentifierStr ?g1 = c # takeWhile alnum_char cs" "NumVal ?g1 = NumVal g"
    unfolding g1 using after_run_props [of alnum_char "?gs\<lparr>IdentifierStr := [c]\<rparr>"] h sp
    by simp_all
  from assms(3) h have "isalpha (LastChar ?gs)"
    by simp
  then have "gettok strtod g =
     (if IdentifierStr ?g1 = ''def'' then (tok_def, ?g1)
      else if IdentifierStr ?g1 = ''extern'' then (tok_extern, ?g1)
      else (tok_identifier, ?g1))"
    by (simp add: gettok_alpha Let_def)
  with p show ?thesis
    by (simp add: scanned_def)
qed

lemma scanned_number:
  assumes "lexer_ok g" and "dropWhile space_char (unconsumed g) = c # cs"
    and "number_char c"
  shows "scanned strtod g =
           (tok_number, IdentifierStr g, strtod (c # takeWhile number_char cs),
            dropWhile number_char cs) \<and>
         lexer_ok (snd (gettok strtod g))"
proof -
  let ?gs = "gettok_space g"
  note sp = gettok_space_props [OF assms(1)]
  with assms(2) have u: "unconsumed ?gs = c # cs"
    by simp
  from sp have ok: "lexer_ok ?gs" by simp
  note h = unconsumed_Cons [OF ok u]
  from assms(3) h have "isdigit (LastChar ?gs) \<or> LastChar ?gs = 46"
    by (simp add: number_char_def)
  then have "gettok strtod g =
      (tok_number, (after_run number_char ?gs)
         \<lparr>NumVal := strtod (c # takeWhile number_char cs)\<rparr>)"
    by (simp add: gettok_num gettok_number_after_run h)
  moreover have "lexer_ok ((after_run number_char ?gs)\<lparr>NumVal := x\<rparr>)"
    "unconsumed ((after_run number_char ?gs)\<lparr>NumVal := x\<rparr>) = dropWhile number_char cs" for x
    using after_run_props(1,2) [of number_char ?gs] h
    by simp_all
  ultimately show ?thesis
    using sp after_run_props(3) [of number_char ?gs]
    by (simp add: scanned_def)
qed

lemma gettok_after_comment:
  assumes "lexer_ok g" and "dropWhile space_char (unconsumed g) = CHR ''#'' # cs"
  shows "(dropWhile comment_char cs = [] \<longrightarrow>
            scanned strtod g = (tok_eof, IdentifierStr g, NumVal g, []) \<and>
            lexer_ok (snd (gettok strtod g))) \<and>
         (dropWhile comment_char cs \<noteq> [] \<longrightarrow>
            (\<exists>gc. gettok strtod g = gettok strtod gc \<and> lexer_ok gc \<and>
                  unconsumed gc = dropWhile comment_char cs \<and>
                  IdentifierStr gc = IdentifierStr g \<and> NumVal gc = NumVal g))"
proof -
  let ?gs = "gettok_space g"
  let ?gc = "gettok_comment ?gs"
  note sp = gettok_space_props [OF assms(1)]
  with assms(2) have u: "unconsumed ?gs = CHR ''#'' # cs"
    by simp
  from sp have ok: "lexer_ok ?gs" by simp
  note h = unconsumed_Cons [OF ok u]
  from h have hash: "LastChar ?gs = 35"
    by simp
  have c: "lexer_ok ?gc" "unconsumed ?gc = dropWhile comment_char cs"
    "IdentifierStr ?gc = IdentifierStr g" "NumVal ?gc = NumVal g"
    using after_run_props [of comment_char ?gs] h sp
    by (simp_all add: gettok_comment_run)
  note eq = gettok_hash [OF hash, of strtod]
  show ?thesis
  proof (intro conjI impI)
    assume "dropWhile comment_char cs = []"
    with c(2) have "unconsumed ?gc = []"
      by (simp only:)
    then have "LastChar ?gc = EOF"
      by (rule unconsumed_Nil)
    with eq have "gettok strtod g = (tok_eof, ?gc)"
      by (simp add: Let_def)
    with c(1,3,4) \<open>unconsumed ?gc = []\<close>
    show "scanned strtod g = (tok_eof, IdentifierStr g, NumVal g, [])"
      and "lexer_ok (snd (gettok strtod g))"
      by (simp_all add: scanned_def)
  next
    assume "dropWhile comment_char cs \<noteq> []"
    with c(2) have "unconsumed ?gc \<noteq> []"
      by (simp only: simp_thms)
    then have "LastChar ?gc \<noteq> EOF"
      by (auto simp: unconsumed_def)
    with eq have "gettok strtod g = gettok strtod ?gc"
      by (simp add: Let_def)
    with c show "\<exists>gc. gettok strtod g = gettok strtod gc \<and> lexer_ok gc \<and>
                  unconsumed gc = dropWhile comment_char cs \<and>
                  IdentifierStr gc = IdentifierStr g \<and> NumVal gc = NumVal g"
      by blast
  qed
qed

lemma scanned_other:
  assumes "lexer_ok g" and "dropWhile space_char (unconsumed g) = c # cs"
    and "\<not> isalpha (of_char c)" and "\<not> number_char c" and "c \<noteq> CHR ''#''"
  shows "scanned strtod g = (of_char c, IdentifierStr g, NumVal g, cs) \<and>
         lexer_ok (snd (gettok strtod g))"
proof -
  let ?gs = "gettok_space g"
  note sp = gettok_space_props [OF assms(1)]
  with assms(2) have u: "unconsumed ?gs = c # cs"
    by simp
  from sp have ok: "lexer_ok ?gs" by simp
  note h = unconsumed_Cons [OF ok u]
  have "(of_char c :: int) \<noteq> 35"
  proof
    assume "(of_char c :: int) = 35"
    then have "c = char_of (35::int)"
      by (metis char_of_char)
    with assms(5) show False
      by (simp add: char_of_def)
  qed
  with assms(3,4) h
  have "gettok strtod g = (LastChar ?gs, next_LastChar ?gs)"
    by (simp add: gettok_other number_char_def Let_def)
  with sp h next_LastChar_props [of ?gs] show ?thesis
    by (simp add: scanned_def)
qed

lemma not_comment_char_cases: "\<not> comment_char e \<Longrightarrow> e = CHR 0x0A \<or> e = CHR 0x0D"
  by (auto simp: comment_char_def)

lemma alnum_char_facts:
  "\<not> alnum_char CHR ''#''" "\<not> comment_char e \<Longrightarrow> \<not> alnum_char e"
  by (auto dest!: not_comment_char_cases
        simp: alnum_char_def isalnum_def isalpha_def isdigit_def)

lemma number_char_facts:
  "\<not> number_char CHR ''#''" "\<not> comment_char e \<Longrightarrow> \<not> number_char e"
  by (auto dest!: not_comment_char_cases simp: number_char_def isdigit_def)

lemma strip_comments_alnum:
  "takeWhile alnum_char (strip_comments cs) = takeWhile alnum_char cs"
  "dropWhile alnum_char (strip_comments cs) = strip_comments (dropWhile alnum_char cs)"
  by (rule strip_comments_takeWhile strip_comments_dropWhile, rule alnum_char_facts,
      erule alnum_char_facts)+

lemma strip_comments_number:
  "takeWhile number_char (strip_comments cs) = takeWhile number_char cs"
  "dropWhile number_char (strip_comments cs) = strip_comments (dropWhile number_char cs)"
  by (rule strip_comments_takeWhile strip_comments_dropWhile, rule number_char_facts,
      erule number_char_facts)+

lemma scanned_step:
  assumes "scanned strtod g = (t, i, n, r) \<and> lexer_ok (snd (gettok strtod g))"
    and "scanned strtod g' = (t, i, n, r') \<and> lexer_ok (snd (gettok strtod g'))"
    and "dropWhile space_char r' = dropWhile space_char (strip_comments r)"
  shows "fst (gettok strtod g') = fst (gettok strtod g) \<and>
         same_but_comments (snd (gettok strtod g)) (snd (gettok strtod g'))"
  using assms by (auto simp: scanned_def same_but_comments_def split: prod.splits)

lemma gettok_same_but_comments:
  "same_but_comments g g' \<Longrightarrow>
   fst (gettok strtod g') = fst (gettok strtod g) \<and>
   same_but_comments (snd (gettok strtod g)) (snd (gettok strtod g'))"
proof (induction "length (unconsumed g)" arbitrary: g rule: less_induct)
  case less
  let ?V = "dropWhile space_char"
  from less(2) have ok: "lexer_ok g" and ok': "lexer_ok g'"
    and id: "IdentifierStr g' = IdentifierStr g" and nv: "NumVal g' = NumVal g"
    and v': "?V (unconsumed g') = ?V (strip_comments (?V (unconsumed g)))"
    by (simp_all add: same_but_comments_def strip_comments_spaces)
  show ?case
  proof (cases "?V (unconsumed g)")
    case Nil
    with v' have "?V (unconsumed g') = []"
      by simp
    from scanned_eof [OF ok' this, of strtod] id nv
    have "scanned strtod g' = (tok_eof, IdentifierStr g, NumVal g, []) \<and>
          lexer_ok (snd (gettok strtod g'))"
      by simp
    with scanned_eof [OF ok Nil, of strtod] show ?thesis
      by (rule scanned_step) simp
  next
    case (Cons c cs)
    then have nsp: "\<not> space_char c"
      by (rule view_head)
    show ?thesis
    proof (cases "c = CHR ''#''")
      case True
      with Cons have hash: "?V (unconsumed g) = CHR ''#'' # cs"
        by simp
      let ?r2 = "dropWhile comment_char cs"
      from v' hash have v2: "?V (unconsumed g') = ?V (strip_comments ?r2)"
        by simp
      note k = gettok_after_comment [OF ok hash, of strtod]
      show ?thesis
      proof (cases "?r2 = []")
        case True
        with v2 have "?V (unconsumed g') = []"
          by (simp del: dropWhile_eq_Nil_conv)
        from scanned_eof [OF ok' this, of strtod] id nv
        have "scanned strtod g' = (tok_eof, IdentifierStr g, NumVal g, []) \<and>
              lexer_ok (snd (gettok strtod g'))"
          by simp
        with k [THEN conjunct1, rule_format, OF True] show ?thesis
          by (rule scanned_step) simp
      next
        case False
        with k obtain gc where gc: "gettok strtod g = gettok strtod gc" "lexer_ok gc"
            "unconsumed gc = ?r2" "IdentifierStr gc = IdentifierStr g" "NumVal gc = NumVal g"
          by blast
        have "length ?r2 \<le> length cs"
          by (rule length_dropWhile_le)
        also have "length cs < length (?V (unconsumed g))"
          by (simp add: hash)
        also have "\<dots> \<le> length (unconsumed g)"
          by (rule length_dropWhile_le)
        finally have "length (unconsumed gc) < length (unconsumed g)"
          by (simp add: gc(3))
        moreover have "same_but_comments gc g'"
          using gc ok' v2 id nv by (simp add: same_but_comments_def)
        ultimately show ?thesis
          using less(1) [of gc] gc(1) by simp
      qed
    next
      case nothash: False
      with Cons v' nsp have view': "?V (unconsumed g') = c # strip_comments cs"
        by simp
      consider (alpha) "isalpha (of_char c)"
        | (num) "\<not> isalpha (of_char c)" "number_char c"
        | (other) "\<not> isalpha (of_char c)" "\<not> number_char c"
        by blast
      then show ?thesis
      proof cases
        case alpha
        from scanned_alpha [OF ok' view' alpha, of strtod] nv
        have "scanned strtod g' =
           (if c # takeWhile alnum_char cs = ''def'' then tok_def
            else if c # takeWhile alnum_char cs = ''extern'' then tok_extern
            else tok_identifier,
            c # takeWhile alnum_char cs, NumVal g, strip_comments (dropWhile alnum_char cs)) \<and>
           lexer_ok (snd (gettok strtod g'))"
          by (simp only: strip_comments_alnum)
        with scanned_alpha [OF ok Cons alpha, of strtod] show ?thesis
          by (rule scanned_step) simp
      next
        case num
        from scanned_number [OF ok' view' num(2), of strtod] id
        have "scanned strtod g' =
           (tok_number, IdentifierStr g, strtod (c # takeWhile number_char cs),
            strip_comments (dropWhile number_char cs)) \<and>
           lexer_ok (snd (gettok strtod g'))"
          by (simp only: strip_comments_number)
        with scanned_number [OF ok Cons num(2), of strtod] show ?thesis
          by (rule scanned_step) simp
      next
        case other
        from scanned_other [OF ok' view' other nothash, of strtod] id nv
        have "scanned strtod g' = (of_char c, IdentifierStr g, NumVal g, strip_comments cs) \<and>
              lexer_ok (snd (gettok strtod g'))"
          by simp
        with scanned_other [OF ok Cons other nothash, of strtod] show ?thesis
          by (rule scanned_step) simp
      qed
    qed
  qed
qed

lemma tokens_same_but_comments:
  "same_but_comments g g' \<Longrightarrow> tokens strtod g' = tokens strtod g"
proof (induction strtod g arbitrary: g' rule: tokens.induct)
  case (1 strtod g)
  obtain t g1 where a: "gettok strtod g = (t, g1)"
    by (cases "gettok strtod g")
  obtain t' g1' where b: "gettok strtod g' = (t', g1')"
    by (cases "gettok strtod g'")
  from gettok_same_but_comments [OF 1(2), of strtod] a b
  have t: "t' = t" and s: "same_but_comments g1 g1'"
    by simp_all
  show ?case
  proof (cases "t = tok_eof")
    case True
    with a b t show ?thesis
      by (simp add: tokens.simps [of strtod g] tokens.simps [of strtod g'])
  next
    case False
    from 1(1) [OF a [symmetric] False s] have "tokens strtod g1' = tokens strtod g1" .
    moreover from s have "IdentifierStr g1' = IdentifierStr g1" "NumVal g1' = NumVal g1"
      by (simp_all add: same_but_comments_def)
    ultimately show ?thesis
      using a b t False
      by (simp add: tokens.simps [of strtod g] tokens.simps [of strtod g'])
  qed
qed

text \<open>
  C7. Comments never affect the tokens: from the start of a session the lexer produces
  the same sequence of tokens, with the same identifier texts and numeric values, on an
  input and on the input with its comments removed. In particular the input
  \<open>1 #comment\<close>, newline, \<open>2\<close> gives the two numbers that \<open>1\<close>, newline, \<open>2\<close> gives.
\<close>

theorem tokens_strip_comments:
  "tokens strtod (initial_globals (strip_comments s)) = tokens strtod (initial_globals s) \<and>
   tokens strtod (initial_globals ''1 #comment\<newline>2'') =
     [(tok_number, [], strtod ''1''), (tok_number, [], strtod ''2'')] \<and>
   tokens strtod (initial_globals ''1\<newline>2'') =
     [(tok_number, [], strtod ''1''), (tok_number, [], strtod ''2'')]"
proof (intro conjI)
  have "same_but_comments (initial_globals s :: 'a globals) (initial_globals (strip_comments s))"
    by (simp add: same_but_comments_def initial_globals_def lexer_ok_def unconsumed_def
          EOF_def char_of_def)
  then show "tokens strtod (initial_globals (strip_comments s)) = tokens strtod (initial_globals s)"
    by (rule tokens_same_but_comments)
qed (simp_all add: tokens.simps lex_eval initial_globals_def)

end
